theory Spec2Isabelle
  imports Main
begin

section \<open>Data model of whynot.py\<close>

text \<open>
  The interpreter of \<^verbatim>\<open>src/whynot.py\<close>: a single-pass compiler from source text to a
  fixed array of instructions, with a bounded stack that resolves the brackets, and a
  virtual machine that runs the instructions on a tape of integer cells.
  Python's integers are unbounded, so every counter and cell is an \<open>int\<close>.
\<close>

datatype Op = OpEnd | OpIncDp | OpDecDp | OpIncVal | OpDecVal | OpOut | OpIn
  | OpJmpFwd | OpJmpBck | Unknown

datatype Statuses = Success | Failure

definition PROGRAM_SIZE :: int where "PROGRAM_SIZE = 4096"
definition STACK_SIZE :: int where "STACK_SIZE = 512"
definition DATA_SIZE :: int where "DATA_SIZE = 65535"

datatype StackErrors = OverFlow | UnderFlow

text \<open>The host exceptions the code can raise: none of them is caught anywhere.\<close>

datatype py_error = IndexError | ValueError | EOFError

text \<open>
  Control flow of a loop body: it raises, it returns from the enclosing function, or it
  falls through to the next iteration with a new state.
\<close>

datatype ('r, 's) ctl = Raise py_error | Return 'r | Next 's

definition propagate :: "py_error + 'a \<Rightarrow> ('a \<Rightarrow> ('r, 's) ctl) \<Rightarrow> ('r, 's) ctl" where
  "propagate x f = (case x of Inl e \<Rightarrow> Raise e | Inr v \<Rightarrow> f v)"

subsection \<open>Python list indexing\<close>

text \<open>
  \<open>xs[i]\<close> in Python: a negative index counts from the end, and an index outside
  \<open>-len(xs) .. len(xs) - 1\<close> raises IndexError.
\<close>

definition py_index :: "'a list \<Rightarrow> int \<Rightarrow> py_error + nat" where
  "py_index xs i =
     (if 0 \<le> i \<and> i < int (length xs) then Inr (nat i)
      else if - int (length xs) \<le> i \<and> i < 0 then Inr (nat (int (length xs) + i))
      else Inl IndexError)"

definition getitem :: "'a list \<Rightarrow> int \<Rightarrow> py_error + 'a" where
  "getitem xs i = (case py_index xs i of Inl e \<Rightarrow> Inl e | Inr k \<Rightarrow> Inr (xs ! k))"

definition setitem :: "'a list \<Rightarrow> int \<Rightarrow> 'a \<Rightarrow> py_error + 'a list" where
  "setitem xs i v = (case py_index xs i of Inl e \<Rightarrow> Inl e | Inr k \<Rightarrow> Inr (xs[k := v]))"

subsection \<open>class Stack\<close>

record Stack =
  ptr :: int
  arr :: "int list"

definition Stack_init :: Stack where
  "Stack_init = \<lparr>ptr = 0, arr = replicate (nat STACK_SIZE) 0\<rparr>"

definition push :: "Stack \<Rightarrow> int \<Rightarrow> py_error + (Stack \<times> StackErrors option)" where
  "push s a =
     (if ptr s \<ge> STACK_SIZE then Inr (s, Some OverFlow)
      else case setitem (arr s) (ptr s) a of
             Inl e \<Rightarrow> Inl e
           | Inr arr' \<Rightarrow> Inr (s\<lparr>arr := arr', ptr := ptr s + 1\<rparr>, None))"

text \<open>
  \<open>pop\<close> returns the pair (value, error) of the source, next to the new state; the value
  is \<open>None\<close> exactly on underflow.
\<close>

definition pop :: "Stack \<Rightarrow> py_error + (Stack \<times> int option \<times> StackErrors option)" where
  "pop s =
     (if ptr s = 0 then Inr (s, None, Some UnderFlow)
      else let s' = s\<lparr>ptr := ptr s - 1\<rparr>
           in case getitem (arr s') (ptr s') of
                Inl e \<Rightarrow> Inl e
              | Inr v \<Rightarrow> Inr (s', Some v, None))"

definition is_empty :: "Stack \<Rightarrow> bool" where
  "is_empty s = (ptr s = 0)"

definition is_full :: "Stack \<Rightarrow> bool" where
  "is_full s = (ptr s = 512)"

subsection \<open>class Instruction, class Program\<close>

record Instruction =
  operator :: Op
  operand :: int

text \<open>
  The output buffer is a Python string: a sequence of code points, which \<open>chr\<close> produces
  up to 0x10FFFF, so it is a list of naturals here.
\<close>

record Program =
  instructions :: "Instruction list"
  stack :: Stack
  print_buffer :: "nat list"

definition Program_init :: Program where
  "Program_init =
     \<lparr>instructions = replicate (nat PROGRAM_SIZE) \<lparr>operator = Unknown, operand = 0\<rparr>,
      stack = Stack_init,
      print_buffer = []\<rparr>"

text \<open>\<open>self.instructions[pc].operator = v\<close> and \<open>self.instructions[pc].operand = v\<close>:
  the list holds one object per position, so the assignment changes that position only.\<close>

definition set_operator :: "Instruction list \<Rightarrow> int \<Rightarrow> Op \<Rightarrow> py_error + Instruction list" where
  "set_operator ins i v =
     (case py_index ins i of Inl e \<Rightarrow> Inl e | Inr k \<Rightarrow> Inr (ins[k := (ins ! k)\<lparr>operator := v\<rparr>]))"

definition set_operand :: "Instruction list \<Rightarrow> int \<Rightarrow> int \<Rightarrow> py_error + Instruction list" where
  "set_operand ins i v =
     (case py_index ins i of Inl e \<Rightarrow> Inl e | Inr k \<Rightarrow> Inr (ins[k := (ins ! k)\<lparr>operand := v\<rparr>]))"

section \<open>Program.compile\<close>

text \<open>
  The source text is a \<open>string\<close>; \<open>str.strip()\<close> removes the leading and trailing
  characters that Python counts as whitespace (among the code points below 256: 9 to 13,
  28 to 32, 133 and 160).
\<close>

definition isspace :: "char \<Rightarrow> bool" where
  "isspace c =
     (let n = (of_char c :: nat)
      in (9 \<le> n \<and> n \<le> 13) \<or> (28 \<le> n \<and> n \<le> 32) \<or> n = 133 \<or> n = 160)"

definition strip :: "string \<Rightarrow> string" where
  "strip s = rev (dropWhile isspace (rev (dropWhile isspace s)))"

text \<open>
  One pass of the \<open>match c\<close> statement followed by \<open>pc += 1\<close>, for a character \<open>c\<close> that
  the loop did not break on.
\<close>

definition put :: "Program \<Rightarrow> int \<Rightarrow> Op \<Rightarrow> (Statuses \<times> Program, Program \<times> int) ctl" where
  "put self pc v =
     propagate (set_operator (instructions self) pc v)
       (\<lambda>ins. Next (self\<lparr>instructions := ins\<rparr>, pc + 1))"

definition compile_char :: "Program \<Rightarrow> int \<Rightarrow> char \<Rightarrow> (Statuses \<times> Program, Program \<times> int) ctl" where
  "compile_char self pc c =
     (if c = CHR ''>'' then put self pc OpIncDp
      else if c = CHR ''<'' then put self pc OpDecDp
      else if c = CHR ''+'' then put self pc OpIncVal
      else if c = CHR ''-'' then put self pc OpDecVal
      else if c = CHR ''.'' then put self pc OpOut
      else if c = CHR '','' then put self pc OpIn
      else if c = CHR ''['' then
        propagate (set_operator (instructions self) pc OpJmpFwd) (\<lambda>ins.
          let self1 = self\<lparr>instructions := ins\<rparr>
          in if is_full (stack self1) then Return (Failure, self1)
             else propagate (push (stack self1) pc) (\<lambda>(st, _).
                    Next (self1\<lparr>stack := st\<rparr>, pc + 1)))
      else if c = CHR '']'' then
        (if is_empty (stack self) then Return (Failure, self)
         else propagate (pop (stack self)) (\<lambda>(st, result0, _).
                let self1 = self\<lparr>stack := st\<rparr>
                in case result0 of
                     None \<Rightarrow> Return (Failure, self1)
                   | Some jmp_pc \<Rightarrow>
                       propagate (set_operator (instructions self1) pc OpJmpBck) (\<lambda>ins1.
                       propagate (set_operand ins1 pc jmp_pc) (\<lambda>ins2.
                       propagate (set_operand ins2 jmp_pc pc) (\<lambda>ins3.
                         Next (self1\<lparr>instructions := ins3\<rparr>, pc + 1))))))
      else Next (self, pc - 1 + 1))"

text \<open>The \<open>for\<close> loop: it breaks as soon as \<open>pc\<close> is not below \<open>PROGRAM_SIZE\<close>.\<close>

fun compile_loop :: "Program \<Rightarrow> int \<Rightarrow> string \<Rightarrow> (Statuses \<times> Program, Program \<times> int) ctl" where
  "compile_loop self pc [] = Next (self, pc)"
| "compile_loop self pc (c # cs) =
     (if \<not> pc < PROGRAM_SIZE then Next (self, pc)
      else case compile_char self pc c of
             Raise e \<Rightarrow> Raise e
           | Return r \<Rightarrow> Return r
           | Next (self', pc') \<Rightarrow> compile_loop self' pc' cs)"

text \<open>
  The statements after the loop. The message that \<open>compile\<close> prints on success is left
  out: nothing depends on it.
\<close>

definition compile_finish :: "(Statuses \<times> Program, Program \<times> int) ctl \<Rightarrow> py_error + (Statuses \<times> Program)" where
  "compile_finish r =
     (case r of
        Raise e \<Rightarrow> Inl e
      | Return x \<Rightarrow> Inr x
      | Next (self, pc) \<Rightarrow>
          if \<not> is_empty (stack self) \<or> pc = PROGRAM_SIZE then Inr (Failure, self)
          else (case set_operator (instructions self) pc OpEnd of
                  Inl e \<Rightarrow> Inl e
                | Inr ins \<Rightarrow> Inr (Success, self\<lparr>instructions := ins\<rparr>)))"

definition compile :: "Program \<Rightarrow> string \<Rightarrow> py_error + (Statuses \<times> Program)" where
  "compile self fp = compile_finish (compile_loop self 0 (strip fp))"

section \<open>Program.execute\<close>

text \<open>
  A line that \<open>input()\<close> reads is either the text of an integer literal, with the value
  \<open>int\<close> gives it, or some other text, on which \<open>int\<close> raises ValueError. Reading past
  the last line raises EOFError.
\<close>

datatype input_line = IntLiteral int | OtherText

text \<open>The locals of \<open>execute\<close>, and the lines still to be read from standard input.\<close>

record Locals =
  e_data :: "int list"
  e_pc :: int
  e_ptr :: int
  e_stdin :: "input_line list"

definition Locals_init :: "input_line list \<Rightarrow> Locals" where
  "Locals_init inp = \<lparr>e_data = replicate (nat DATA_SIZE) 0, e_pc = 0, e_ptr = 0, e_stdin = inp\<rparr>"

text \<open>\<open>chr(v)\<close> raises ValueError outside \<open>range(0x110000)\<close>.\<close>

definition chr :: "int \<Rightarrow> py_error + nat" where
  "chr v = (if 0 \<le> v \<and> v < 1114112 then Inr (nat v) else Inl ValueError)"

definition read_int :: "input_line list \<Rightarrow> py_error + (int \<times> input_line list)" where
  "read_int inp =
     (case inp of
        [] \<Rightarrow> Inl EOFError
      | OtherText # rest \<Rightarrow> Inl ValueError
      | IntLiteral v # rest \<Rightarrow> Inr (v, rest))"

text \<open>The body of the \<open>while\<close> loop: the \<open>match\<close> statement and \<open>pc += 1\<close>.\<close>

definition execute_body :: "Program \<Rightarrow> Locals \<Rightarrow> (Statuses \<times> Program \<times> Locals, Program \<times> Locals) ctl" where
  "execute_body self l =
     propagate (getitem (instructions self) (e_pc l)) (\<lambda>i.
       case operator i of
         OpIncDp \<Rightarrow> Next (self, l\<lparr>e_ptr := e_ptr l + 1, e_pc := e_pc l + 1\<rparr>)
       | OpDecDp \<Rightarrow> Next (self, l\<lparr>e_ptr := e_ptr l - 1, e_pc := e_pc l + 1\<rparr>)
       | OpIncVal \<Rightarrow>
           propagate (getitem (e_data l) (e_ptr l)) (\<lambda>v.
           propagate (setitem (e_data l) (e_ptr l) (v + 1)) (\<lambda>d.
             Next (self, l\<lparr>e_data := d, e_pc := e_pc l + 1\<rparr>)))
       | OpDecVal \<Rightarrow>
           propagate (getitem (e_data l) (e_ptr l)) (\<lambda>v.
           propagate (setitem (e_data l) (e_ptr l) (v - 1)) (\<lambda>d.
             Next (self, l\<lparr>e_data := d, e_pc := e_pc l + 1\<rparr>)))
       | OpOut \<Rightarrow>
           propagate (getitem (e_data l) (e_ptr l)) (\<lambda>v.
           propagate (chr v) (\<lambda>ch.
             Next (self\<lparr>print_buffer := print_buffer self @ [ch]\<rparr>, l\<lparr>e_pc := e_pc l + 1\<rparr>)))
       | OpIn \<Rightarrow>
           propagate (read_int (e_stdin l)) (\<lambda>(v, rest).
           propagate (setitem (e_data l) (e_ptr l) v) (\<lambda>d.
             Next (self, l\<lparr>e_data := d, e_stdin := rest, e_pc := e_pc l + 1\<rparr>)))
       | OpJmpFwd \<Rightarrow>
           propagate (getitem (e_data l) (e_ptr l)) (\<lambda>v.
             if v = 0 then Next (self, l\<lparr>e_pc := operand i + 1\<rparr>)
             else Next (self, l\<lparr>e_pc := e_pc l + 1\<rparr>))
       | OpJmpBck \<Rightarrow>
           propagate (getitem (e_data l) (e_ptr l)) (\<lambda>v.
             if v \<noteq> 0 then Next (self, l\<lparr>e_pc := operand i + 1\<rparr>)
             else Next (self, l\<lparr>e_pc := e_pc l + 1\<rparr>))
       | _ \<Rightarrow> Return (Failure, self, l))"

text \<open>
  The \<open>while\<close> loop and the \<open>match ptr != DATA_SIZE\<close> after it. The loop need not end,
  so the first argument bounds the number of times its condition is evaluated; \<open>None\<close>
  says that the bound was too small. The result holds the locals at the return, next to
  the status and the object. On Success the source prints \<open>print_buffer\<close>, which is the
  output of the program.
\<close>

fun execute_loop :: "nat \<Rightarrow> Program \<Rightarrow> Locals \<Rightarrow> (py_error + (Statuses \<times> Program \<times> Locals)) option" where
  "execute_loop 0 self l = None"
| "execute_loop (Suc n) self l =
     (case getitem (instructions self) (e_pc l) of
        Inl e \<Rightarrow> Some (Inl e)
      | Inr i \<Rightarrow>
          if operator i \<noteq> OpEnd \<and> e_ptr l < DATA_SIZE then
            (case execute_body self l of
               Raise e \<Rightarrow> Some (Inl e)
             | Return r \<Rightarrow> Some (Inr r)
             | Next (self', l') \<Rightarrow> execute_loop n self' l')
          else if e_ptr l \<noteq> DATA_SIZE then Some (Inr (Success, self, l))
          else Some (Inr (Failure, self, l)))"

definition execute :: "nat \<Rightarrow> Program \<Rightarrow> input_line list \<Rightarrow> (py_error + (Statuses \<times> Program)) option" where
  "execute fuel self inp =
     map_option (map_sum id (\<lambda>(st, self', l). (st, self'))) (execute_loop fuel self (Locals_init inp))"

section \<open>Notions used to state the properties\<close>

subsection \<open>The stack\<close>

text \<open>
  The states a \<open>Stack\<close> object can be in: \<open>ptr\<close> counts the elements held, which are the
  first \<open>ptr\<close> entries of \<open>arr\<close>, the most recently pushed one last. \<open>Stack_init\<close> is such a
  state and \<open>push\<close> and \<open>pop\<close> keep the object in such a state.
\<close>

definition Stack_inv :: "Stack \<Rightarrow> bool" where
  "Stack_inv s = (0 \<le> ptr s \<and> ptr s \<le> STACK_SIZE \<and> int (length (arr s)) = STACK_SIZE)"

definition held :: "Stack \<Rightarrow> int list" where
  "held s = take (nat (ptr s)) (arr s)"

subsection \<open>The execution loop, iteration by iteration\<close>

text \<open>
  \<open>state_at n self l\<close> is the state in which the \<open>while\<close> loop evaluates its condition
  for the \<open>(n+1)\<close>-th time, when started in \<open>l\<close>: it is \<open>None\<close> when the loop has been left
  (or an exception raised) before.
\<close>

fun state_at :: "nat \<Rightarrow> Program \<Rightarrow> Locals \<Rightarrow> (Program \<times> Locals) option" where
  "state_at 0 self l = Some (self, l)"
| "state_at (Suc n) self l =
     (case getitem (instructions self) (e_pc l) of
        Inl e \<Rightarrow> None
      | Inr i \<Rightarrow>
          if operator i \<noteq> OpEnd \<and> e_ptr l < DATA_SIZE then
            (case execute_body self l of
               Next (self', l') \<Rightarrow> state_at n self' l'
             | _ \<Rightarrow> None)
          else None)"

subsection \<open>Source texts and brackets\<close>

text \<open>
  The eight characters that \<open>compile\<close> turns into an instruction, the commands of a source
  text in order, and the operator written for each of them.
\<close>

definition is_command :: "char \<Rightarrow> bool" where
  "is_command c = (c \<in> set ''><+-.,[]'')"

definition commands :: "string \<Rightarrow> string" where
  "commands s = filter is_command s"

fun op_of :: "char \<Rightarrow> Op" where
  "op_of c =
     (if c = CHR ''>'' then OpIncDp
      else if c = CHR ''<'' then OpDecDp
      else if c = CHR ''+'' then OpIncVal
      else if c = CHR ''-'' then OpDecVal
      else if c = CHR ''.'' then OpOut
      else if c = CHR '','' then OpIn
      else if c = CHR ''['' then OpJmpFwd
      else if c = CHR '']'' then OpJmpBck
      else Unknown)"

text \<open>
  \<open>depth_after d s\<close> is the number of brackets open after \<open>s\<close>, read with \<open>d\<close> brackets
  open: \<open>None\<close> when some \<open>]\<close> of \<open>s\<close> closes no bracket. \<open>nesting d s\<close> is the largest
  number of brackets open at any point. A text is balanced when it closes what it opens;
  position \<open>i\<close> matches position \<open>j\<close> when they hold \<open>[\<close> and \<open>]\<close> and the text between them
  is balanced.
\<close>

fun depth_after :: "nat \<Rightarrow> string \<Rightarrow> nat option" where
  "depth_after d [] = Some d"
| "depth_after d (c # cs) =
     (if c = CHR ''['' then depth_after (Suc d) cs
      else if c = CHR '']'' then (case d of 0 \<Rightarrow> None | Suc d' \<Rightarrow> depth_after d' cs)
      else depth_after d cs)"

fun nesting :: "nat \<Rightarrow> string \<Rightarrow> nat" where
  "nesting d [] = d"
| "nesting d (c # cs) =
     (if c = CHR ''['' then max d (nesting (Suc d) cs)
      else if c = CHR '']'' then max d (nesting (d - 1) cs)
      else nesting d cs)"

definition balanced :: "string \<Rightarrow> bool" where
  "balanced s = (depth_after 0 s = Some 0)"

definition matching :: "string \<Rightarrow> nat \<Rightarrow> nat \<Rightarrow> bool" where
  "matching cs i j =
     (i < j \<and> j < length cs \<and> cs ! i = CHR ''['' \<and> cs ! j = CHR '']'' \<and>
      balanced (take (j - Suc i) (drop (Suc i) cs)))"

subsection \<open>Texts of non-nested brackets and comment characters\<close>

text \<open>The flag says whether a bracket is open.\<close>

fun flat_brackets :: "bool \<Rightarrow> string \<Rightarrow> bool" where
  "flat_brackets inside [] = (\<not> inside)"
| "flat_brackets inside (c # s) =
     (if c = CHR ''['' then \<not> inside \<and> flat_brackets True s
      else if c = CHR '']'' then inside \<and> flat_brackets False s
      else \<not> is_command c \<and> flat_brackets inside s)"

subsection \<open>The state of the compiler after a prefix of the commands\<close>

text \<open>
  \<open>open_ok cs st\<close>: the positions \<open>st\<close>, innermost first, are those of the brackets that
  the commands \<open>cs\<close> leave open. \<open>cinv self cs st\<close> relates the object to the commands
  \<open>cs\<close> compiled so far: one instruction per command, the rest of the array untouched,
  the stack holding the open positions \<open>st\<close>, and every closed pair linked both ways.
\<close>

fun open_ok :: "string \<Rightarrow> nat list \<Rightarrow> bool" where
  "open_ok cs [] = balanced cs"
| "open_ok cs (p # ps) =
     (p < length cs \<and> cs ! p = CHR ''['' \<and> balanced (drop (Suc p) cs) \<and> open_ok (take p cs) ps)"

definition linked :: "string \<Rightarrow> Instruction list \<Rightarrow> nat \<Rightarrow> nat \<Rightarrow> bool" where
  "linked cs ins i j =
     (matching cs i j \<and> operand (ins ! i) = int j \<and> operand (ins ! j) = int i)"

definition code_ok :: "Instruction list \<Rightarrow> string \<Rightarrow> bool" where
  "code_ok ins cs =
     (length ins = 4096 \<and> length cs \<le> 4096 \<and>
      (\<forall>c \<in> set cs. is_command c) \<and>
      (\<forall>k<length cs. operator (ins ! k) = op_of (cs ! k)) \<and>
      (\<forall>k. length cs \<le> k \<and> k < 4096 \<longrightarrow> ins ! k = \<lparr>operator = Unknown, operand = 0\<rparr>))"

definition links_ok :: "Instruction list \<Rightarrow> string \<Rightarrow> nat list \<Rightarrow> bool" where
  "links_ok ins cs st =
     ((\<forall>i<length cs. cs ! i = CHR ''['' \<longrightarrow> i \<in> set st \<or> (\<exists>j. linked cs ins i j)) \<and>
      (\<forall>j<length cs. cs ! j = CHR '']'' \<longrightarrow> (\<exists>i. linked cs ins i j)))"

definition stack_ok :: "Stack \<Rightarrow> nat list \<Rightarrow> bool" where
  "stack_ok s st = (Stack_inv s \<and> held s = map int (rev st))"

definition cinv :: "Program \<Rightarrow> string \<Rightarrow> nat list \<Rightarrow> bool" where
  "cinv self cs st =
     (code_ok (instructions self) cs \<and> links_ok (instructions self) cs st \<and>
      stack_ok (stack self) st \<and> open_ok cs st)"

text \<open>
  The control flow of the loop of \<open>compile\<close> on the number of instructions written and
  the number of positions on the stack: \<open>None\<close> when the loop returns Failure, and the two
  numbers when it ends or breaks.
\<close>

fun ascan :: "nat \<Rightarrow> nat \<Rightarrow> string \<Rightarrow> (nat \<times> nat) option" where
  "ascan n d [] = Some (n, d)"
| "ascan n d (c # s) =
     (if \<not> n < 4096 then Some (n, d)
      else if c = CHR ''['' then (if d = 512 then None else ascan (Suc n) (Suc d) s)
      else if c = CHR '']'' then (case d of 0 \<Rightarrow> None | Suc d' \<Rightarrow> ascan (Suc n) d' s)
      else if is_command c then ascan (Suc n) d s
      else ascan n d s)"

text \<open>Whether a loop was left by a \<open>return\<close> statement in its body.\<close>

definition returns_in_loop :: "('r, 's) ctl \<Rightarrow> bool" where
  "returns_in_loop r = (case r of Return x \<Rightarrow> True | _ \<Rightarrow> False)"

section \<open>Evaluation\<close>

lemmas compile_eval = compile_def compile_finish_def compile_char_def put_def propagate_def
  set_operator_def set_operand_def py_index_def push_def pop_def is_empty_def is_full_def
  setitem_def getitem_def Program_init_def Stack_init_def PROGRAM_SIZE_def STACK_SIZE_def
  strip_def isspace_def Let_def

lemma execute_loop_pos:
  "0 < n \<Longrightarrow> execute_loop n self l =
     (case getitem (instructions self) (e_pc l) of
        Inl e \<Rightarrow> Some (Inl e)
      | Inr i \<Rightarrow>
          if operator i \<noteq> OpEnd \<and> e_ptr l < DATA_SIZE then
            (case execute_body self l of
               Raise e \<Rightarrow> Some (Inl e)
             | Return r \<Rightarrow> Some (Inr r)
             | Next (self', l') \<Rightarrow> execute_loop (n - 1) self' l')
          else if e_ptr l \<noteq> DATA_SIZE then Some (Inr (Success, self, l))
          else Some (Inr (Failure, self, l)))"
  by (cases n) (auto split: sum.splits ctl.splits)

lemma state_at_pos:
  "0 < n \<Longrightarrow> state_at n self l =
     (case getitem (instructions self) (e_pc l) of
        Inl e \<Rightarrow> None
      | Inr i \<Rightarrow>
          if operator i \<noteq> OpEnd \<and> e_ptr l < DATA_SIZE then
            (case execute_body self l of
               Next (self', l') \<Rightarrow> state_at (n - 1) self' l'
             | _ \<Rightarrow> None)
          else None)"
  by (cases n) (auto split: sum.splits ctl.splits)

lemmas execute_eval = execute_def execute_body_def Locals_init_def chr_def read_int_def
  DATA_SIZE_def execute_loop_pos

section \<open>The stack contract\<close>

lemma Stack_inv_init: "Stack_inv Stack_init"
  by (simp add: Stack_inv_def Stack_init_def STACK_SIZE_def)

lemma held_init: "held Stack_init = []"
  by (simp add: held_def Stack_init_def)

lemma length_held: "Stack_inv s \<Longrightarrow> int (length (held s)) = ptr s"
  by (auto simp: held_def Stack_inv_def)

lemma push_full:
  assumes "Stack_inv s" "ptr s = STACK_SIZE"
  shows "push s a = Inr (s, Some OverFlow)"
  using assms by (simp add: push_def)

lemma push_ok:
  assumes "Stack_inv s" "ptr s \<noteq> STACK_SIZE"
  shows "push s a = Inr (s\<lparr>arr := (arr s)[nat (ptr s) := a], ptr := ptr s + 1\<rparr>, None)"
  using assms by (auto simp: push_def Stack_inv_def setitem_def py_index_def Let_def)

lemma push_ok_inv:
  assumes "Stack_inv s" "ptr s \<noteq> STACK_SIZE"
  shows "Stack_inv (s\<lparr>arr := (arr s)[nat (ptr s) := a], ptr := ptr s + 1\<rparr>)"
    and "held (s\<lparr>arr := (arr s)[nat (ptr s) := a], ptr := ptr s + 1\<rparr>) = held s @ [a]"
  using assms by (auto simp: Stack_inv_def held_def nat_add_distrib take_Suc_conv_app_nth)

lemma pop_empty:
  assumes "ptr s = 0"
  shows "pop s = Inr (s, None, Some UnderFlow)"
  using assms by (simp add: pop_def)

lemma pop_ok:
  assumes "Stack_inv s" "ptr s \<noteq> 0"
  shows "pop s = Inr (s\<lparr>ptr := ptr s - 1\<rparr>, Some (arr s ! nat (ptr s - 1)), None)"
  using assms by (auto simp: pop_def Stack_inv_def getitem_def py_index_def Let_def)

lemma last_take_nth: "0 < n \<Longrightarrow> n \<le> length xs \<Longrightarrow> last (take n xs) = xs ! (n - 1)"
  by (cases "take n xs = []") (auto simp: last_conv_nth min_def)

lemma pop_ok_inv:
  assumes "Stack_inv s" "ptr s \<noteq> 0"
  shows "Stack_inv (s\<lparr>ptr := ptr s - 1\<rparr>)"
    and "held (s\<lparr>ptr := ptr s - 1\<rparr>) = butlast (held s)"
    and "arr s ! nat (ptr s - 1) = last (held s)"
proof -
  have n: "0 < nat (ptr s)" "nat (ptr s) \<le> length (arr s)"
    using assms by (auto simp: Stack_inv_def)
  show "Stack_inv (s\<lparr>ptr := ptr s - 1\<rparr>)"
    using assms by (auto simp: Stack_inv_def)
  show "held (s\<lparr>ptr := ptr s - 1\<rparr>) = butlast (held s)"
    using n by (simp add: held_def butlast_take nat_diff_distrib)
  show "arr s ! nat (ptr s - 1) = last (held s)"
    using n by (simp add: held_def last_take_nth nat_diff_distrib)
qed

text \<open>
  C4. In every state of the stack (\<open>Stack_inv\<close>: the initial state has it, and \<open>push\<close> and
  \<open>pop\<close> keep it), \<open>push\<close> reports OverFlow exactly when 512 elements are held, and then
  leaves the stack as it is; otherwise it reports no error and the elements held are the
  former ones followed by the new value. \<open>pop\<close> reports UnderFlow exactly when no element
  is held; otherwise it returns the element pushed last and removes it.
\<close>

theorem stack_contract:
  "Stack_inv s \<Longrightarrow>
     ((\<exists>s'. push s a = Inr (s', Some OverFlow)) \<longleftrightarrow> length (held s) = 512) \<and>
     (length (held s) = 512 \<longrightarrow> push s a = Inr (s, Some OverFlow)) \<and>
     (length (held s) \<noteq> 512 \<longrightarrow>
        (\<exists>s'. push s a = Inr (s', None) \<and> Stack_inv s' \<and> held s' = held s @ [a])) \<and>
     ((\<exists>s'. pop s = Inr (s', None, Some UnderFlow)) \<longleftrightarrow> length (held s) = 0) \<and>
     (length (held s) = 0 \<longrightarrow> pop s = Inr (s, None, Some UnderFlow)) \<and>
     (length (held s) \<noteq> 0 \<longrightarrow>
        (\<exists>s'. pop s = Inr (s', Some (last (held s)), None) \<and> Stack_inv s' \<and>
              held s' = butlast (held s)))"
proof -
  assume inv: "Stack_inv s"
  have len: "int (length (held s)) = ptr s" using inv by (rule length_held)
  have full: "length (held s) = 512 \<longleftrightarrow> ptr s = STACK_SIZE"
    using len by (auto simp: STACK_SIZE_def)
  have empty: "length (held s) = 0 \<longleftrightarrow> ptr s = 0"
    using len by auto
  have 1: "(\<exists>s'. push s a = Inr (s', Some OverFlow)) \<longleftrightarrow> length (held s) = 512"
    using push_full[OF inv, of a] push_ok[OF inv, of a] full by auto
  have 2: "length (held s) = 512 \<longrightarrow> push s a = Inr (s, Some OverFlow)"
    using push_full[OF inv, of a] full by auto
  have 3: "length (held s) \<noteq> 512 \<longrightarrow>
           (\<exists>s'. push s a = Inr (s', None) \<and> Stack_inv s' \<and> held s' = held s @ [a])"
    using push_ok[OF inv, of a] push_ok_inv[OF inv, of a] full by auto
  have 4: "(\<exists>s'. pop s = Inr (s', None, Some UnderFlow)) \<longleftrightarrow> length (held s) = 0"
    using pop_empty[of s] pop_ok[OF inv] empty by auto
  have 5: "length (held s) = 0 \<longrightarrow> pop s = Inr (s, None, Some UnderFlow)"
    using pop_empty[of s] empty by auto
  have 6: "length (held s) \<noteq> 0 \<longrightarrow>
           (\<exists>s'. pop s = Inr (s', Some (last (held s)), None) \<and> Stack_inv s' \<and>
                 held s' = butlast (held s))"
    using pop_ok[OF inv] pop_ok_inv[OF inv] empty by auto
  from 1 2 3 4 5 6 show ?thesis by blast
qed

theorem stack_contract_witness:
  "Stack_inv \<lparr>ptr = 1, arr = (replicate 512 0)[0 := 7]\<rparr> \<and>
   (\<exists>s'. push \<lparr>ptr = 1, arr = (replicate 512 0)[0 := 7]\<rparr> 9 = Inr (s', None) \<and> held s' = [7, 9]) \<and>
   (\<exists>s'. pop \<lparr>ptr = 1, arr = (replicate 512 0)[0 := 7]\<rparr> = Inr (s', Some 7, None) \<and> held s' = []) \<and>
   Stack_inv Stack_init \<and> pop Stack_init = Inr (Stack_init, None, Some UnderFlow) \<and>
   Stack_inv \<lparr>ptr = 512, arr = replicate 512 3\<rparr> \<and>
   push \<lparr>ptr = 512, arr = replicate 512 3\<rparr> 9 =
     Inr (\<lparr>ptr = 512, arr = replicate 512 3\<rparr>, Some OverFlow)"
proof -
  have i: "Stack_inv \<lparr>ptr = 1, arr = (replicate 512 0)[0 := 7]\<rparr>"
    by (simp add: Stack_inv_def STACK_SIZE_def)
  have h: "held \<lparr>ptr = 1, arr = (replicate 512 0)[0 := 7]\<rparr> = [7]"
    by (simp add: held_def take_Suc_conv_app_nth)
  have a: "(\<exists>s'. push \<lparr>ptr = 1, arr = (replicate 512 0)[0 := 7]\<rparr> 9 = Inr (s', None) \<and> held s' = [7, 9]) \<and>
   (\<exists>s'. pop \<lparr>ptr = 1, arr = (replicate 512 0)[0 := 7]\<rparr> = Inr (s', Some 7, None) \<and> held s' = [])"
    using stack_contract[OF i, of 9] h by auto
  have b: "pop Stack_init = Inr (Stack_init, None, Some UnderFlow)"
    using stack_contract[OF Stack_inv_init, of 0] held_init by simp
  have f: "Stack_inv \<lparr>ptr = 512, arr = replicate 512 3\<rparr>"
    by (simp add: Stack_inv_def STACK_SIZE_def)
  have hf: "length (held \<lparr>ptr = 512, arr = replicate 512 3\<rparr>) = 512"
    by (simp add: held_def)
  have c: "push \<lparr>ptr = 512, arr = replicate 512 3\<rparr> 9 =
     Inr (\<lparr>ptr = 512, arr = replicate 512 3\<rparr>, Some OverFlow)"
    using stack_contract[OF f, of 9] hf by blast
  from i a Stack_inv_init b f c show ?thesis by blast
qed

section \<open>Execution\<close>

lemma execute_loop_mono:
  "execute_loop n self l = Some r \<Longrightarrow> execute_loop (n + k) self l = Some r"
proof (induction n arbitrary: self l)
  case 0
  then show ?case by simp
next
  case (Suc n)
  then show ?case
    by (auto split: sum.splits ctl.splits if_splits)
qed

lemma execute_mono:
  "execute n self inp = Some r \<Longrightarrow> execute (n + k) self inp = Some r"
  by (auto simp: execute_def dest: execute_loop_mono)

lemma state_at_execute_loop:
  "state_at n self l = Some (self', l') \<Longrightarrow> execute_loop (n + m) self l = execute_loop m self' l'"
proof (induction n arbitrary: self l)
  case 0
  then show ?case by simp
next
  case (Suc n)
  then show ?case
    by (auto split: sum.splits ctl.splits if_splits)
qed



lemma execute_body_instructions:
  "execute_body self l = Next (self', l') \<Longrightarrow> instructions self' = instructions self"
  by (auto simp: execute_body_def propagate_def split: sum.splits Op.splits if_splits prod.splits)

lemma execute_body_Return:
  "execute_body self l = Return (st, self', l') \<Longrightarrow> self' = self"
  by (auto simp: execute_body_def propagate_def split: sum.splits Op.splits if_splits prod.splits)


lemma py_index_neg:
  "1 \<le> k \<Longrightarrow> k \<le> length xs \<Longrightarrow> py_index xs (- int k) = Inr (length xs - k)"
  by (auto simp: py_index_def nat_diff_distrib' split: if_splits)




text \<open>
  C7. Compiling \<open>++++++++[>++++++++<-]>.\<close> succeeds, and executing the result returns
  Success, whatever the input, with the one character of code point 64 in the output
  buffer, which \<open>execute\<close> prints: 108 evaluations of the loop condition are enough.
\<close>

theorem at_sign_program:
  "\<exists>p p'. compile Program_init ''++++++++[>++++++++<-]>.'' = Inr (Success, p) \<and>
     (\<forall>k inp. execute (108 + k) p inp = Some (Inr (Success, p'))) \<and> print_buffer p' = [64]"
proof -
  obtain p where c: "compile Program_init ''++++++++[>++++++++<-]>.'' = Inr (Success, p)"
    and e: "\<And>inp. execute 108 p inp = Some (Inr (Success, p\<lparr>print_buffer := [64]\<rparr>))"
    by (simp add: compile_eval execute_eval)
  from e have "\<And>k inp. execute (108 + k) p inp = Some (Inr (Success, p\<lparr>print_buffer := [64]\<rparr>))"
    by (rule execute_mono)
  with c show ?thesis by auto
qed

lemma execute_body_data_length:
  "execute_body self l = Next (self', l') \<Longrightarrow> length (e_data l') = length (e_data l)"
  by (auto simp: execute_body_def propagate_def setitem_def
      split: sum.splits Op.splits if_splits prod.splits)

lemma state_at_data_length:
  "state_at n self l = Some (self', l') \<Longrightarrow> length (e_data l') = length (e_data l)"
proof (induction n arbitrary: self l)
  case 0
  then show ?case by simp
next
  case (Suc n)
  from Suc.prems obtain self1 l1 where b: "execute_body self l = Next (self1, l1)"
    and r: "state_at n self1 l1 = Some (self', l')"
    by (auto split: sum.splits ctl.splits if_splits)
  from Suc.IH[OF r] execute_body_data_length[OF b] show ?case by simp
qed

text \<open>
  C8. In an execution, with the data pointer at \<open>-k\<close>, for \<open>k\<close> from 1 to 65535, the loop
  condition holds unless the instruction is the terminator, so the loop goes on; and the
  increment, decrement, output and input instructions read and write the cell at index
  \<open>65535 - k\<close>.
\<close>

theorem negative_pointer_aliases:
  assumes "state_at m self0 (Locals_init inp) = Some (self, l)"
    and "e_ptr l = - int k" "1 \<le> k" "k \<le> 65535"
    and "getitem (instructions self) (e_pc l) = Inr i"
  shows "py_index (e_data l) (e_ptr l) = Inr (65535 - k) \<and>
    (operator i \<noteq> OpEnd \<longrightarrow>
       execute_loop (Suc n) self l =
         (case execute_body self l of
            Raise e \<Rightarrow> Some (Inl e)
          | Return r \<Rightarrow> Some (Inr r)
          | Next (self', l') \<Rightarrow> execute_loop n self' l')) \<and>
    (operator i = OpIncVal \<longrightarrow>
       execute_body self l =
         Next (self, l\<lparr>e_data := (e_data l)[65535 - k := e_data l ! (65535 - k) + 1],
                         e_pc := e_pc l + 1\<rparr>)) \<and>
    (operator i = OpDecVal \<longrightarrow>
       execute_body self l =
         Next (self, l\<lparr>e_data := (e_data l)[65535 - k := e_data l ! (65535 - k) - 1],
                         e_pc := e_pc l + 1\<rparr>)) \<and>
    (operator i = OpOut \<longrightarrow>
       execute_body self l =
         (case chr (e_data l ! (65535 - k)) of
            Inl e \<Rightarrow> Raise e
          | Inr ch \<Rightarrow> Next (self\<lparr>print_buffer := print_buffer self @ [ch]\<rparr>,
                            l\<lparr>e_pc := e_pc l + 1\<rparr>))) \<and>
    (operator i = OpIn \<longrightarrow>
       execute_body self l =
         (case read_int (e_stdin l) of
            Inl e \<Rightarrow> Raise e
          | Inr (v, rest) \<Rightarrow>
              Next (self, l\<lparr>e_data := (e_data l)[65535 - k := v], e_stdin := rest,
                              e_pc := e_pc l + 1\<rparr>)))"
proof -
  have len: "length (e_data l) = 65535"
    using state_at_data_length[OF assms(1)] by (simp add: Locals_init_def DATA_SIZE_def)
  have ix: "py_index (e_data l) (e_ptr l) = Inr (65535 - k)"
    using py_index_neg[of k "e_data l"] assms len by simp
  have lt: "e_ptr l < DATA_SIZE" using assms by (simp add: DATA_SIZE_def)
  show ?thesis
    using ix lt assms(5)
    by (auto simp: execute_body_def propagate_def getitem_def setitem_def
        split: sum.splits prod.splits)
qed

theorem negative_pointer_aliases_witness:
  "let P = \<lparr>instructions = (replicate 4096 \<lparr>operator = Unknown, operand = 0\<rparr>)
              [0 := \<lparr>operator = OpDecDp, operand = 0\<rparr>, 1 := \<lparr>operator = OpIncVal, operand = 0\<rparr>,
               2 := \<lparr>operator = OpDecVal, operand = 0\<rparr>, 3 := \<lparr>operator = OpOut, operand = 0\<rparr>,
               4 := \<lparr>operator = OpIn, operand = 0\<rparr>, 5 := \<lparr>operator = OpEnd, operand = 0\<rparr>],
             stack = \<lparr>ptr = 0, arr = replicate 512 0\<rparr>, print_buffer = []\<rparr>;
       inp = [IntLiteral 7];
       d = replicate 65535 (0 :: int)
   in state_at 1 P (Locals_init inp) =
        Some (P, \<lparr>e_data = d, e_pc = 1, e_ptr = - 1, e_stdin = inp\<rparr>) \<and>
      execute_body P \<lparr>e_data = d, e_pc = 1, e_ptr = - 1, e_stdin = inp\<rparr> =
        Next (P, \<lparr>e_data = d[65534 := 1], e_pc = 2, e_ptr = - 1, e_stdin = inp\<rparr>) \<and>
      state_at 2 P (Locals_init inp) =
        Some (P, \<lparr>e_data = d[65534 := 1], e_pc = 2, e_ptr = - 1, e_stdin = inp\<rparr>) \<and>
      execute_body P \<lparr>e_data = d[65534 := 1], e_pc = 2, e_ptr = - 1, e_stdin = inp\<rparr> =
        Next (P, \<lparr>e_data = d[65534 := 0], e_pc = 3, e_ptr = - 1, e_stdin = inp\<rparr>) \<and>
      state_at 3 P (Locals_init inp) =
        Some (P, \<lparr>e_data = d[65534 := 0], e_pc = 3, e_ptr = - 1, e_stdin = inp\<rparr>) \<and>
      execute_body P \<lparr>e_data = d[65534 := 0], e_pc = 3, e_ptr = - 1, e_stdin = inp\<rparr> =
        Next (P\<lparr>print_buffer := [0]\<rparr>,
              \<lparr>e_data = d[65534 := 0], e_pc = 4, e_ptr = - 1, e_stdin = inp\<rparr>) \<and>
      state_at 4 P (Locals_init inp) =
        Some (P\<lparr>print_buffer := [0]\<rparr>,
              \<lparr>e_data = d[65534 := 0], e_pc = 4, e_ptr = - 1, e_stdin = inp\<rparr>) \<and>
      execute_body (P\<lparr>print_buffer := [0]\<rparr>)
          \<lparr>e_data = d[65534 := 0], e_pc = 4, e_ptr = - 1, e_stdin = inp\<rparr> =
        Next (P\<lparr>print_buffer := [0]\<rparr>,
              \<lparr>e_data = d[65534 := 7], e_pc = 5, e_ptr = - 1, e_stdin = []\<rparr>)"
proof -
  let ?P = "\<lparr>instructions = (replicate 4096 \<lparr>operator = Unknown, operand = 0\<rparr>)
              [0 := \<lparr>operator = OpDecDp, operand = 0\<rparr>, 1 := \<lparr>operator = OpIncVal, operand = 0\<rparr>,
               2 := \<lparr>operator = OpDecVal, operand = 0\<rparr>, 3 := \<lparr>operator = OpOut, operand = 0\<rparr>,
               4 := \<lparr>operator = OpIn, operand = 0\<rparr>, 5 := \<lparr>operator = OpEnd, operand = 0\<rparr>],
             stack = \<lparr>ptr = 0, arr = replicate 512 0\<rparr>, print_buffer = []\<rparr>"
  let ?inp = "[IntLiteral 7]"
  let ?d = "replicate 65535 (0 :: int)"
  let ?l1 = "\<lparr>e_data = ?d, e_pc = 1, e_ptr = - 1, e_stdin = ?inp\<rparr>"
  let ?l2 = "\<lparr>e_data = ?d[65534 := 1], e_pc = 2, e_ptr = - 1, e_stdin = ?inp\<rparr>"
  let ?l3 = "\<lparr>e_data = ?d[65534 := 0], e_pc = 3, e_ptr = - 1, e_stdin = ?inp\<rparr>"
  let ?l4 = "\<lparr>e_data = ?d[65534 := 0], e_pc = 4, e_ptr = - 1, e_stdin = ?inp\<rparr>"
  note ev = getitem_def setitem_def py_index_def execute_body_def propagate_def DATA_SIZE_def
    Locals_init_def chr_def state_at_pos
  have s1: "state_at 1 ?P (Locals_init ?inp) = Some (?P, ?l1)"
    by (simp add: ev del: state_at.simps(2))
  have s2: "state_at 2 ?P (Locals_init ?inp) = Some (?P, ?l2)"
    by (simp add: ev del: state_at.simps(2))
  have s3: "state_at 3 ?P (Locals_init ?inp) = Some (?P, ?l3)"
    by (simp add: ev del: state_at.simps(2))
  have s4: "state_at 4 ?P (Locals_init ?inp) = Some (?P\<lparr>print_buffer := [0]\<rparr>, ?l4)"
    by (simp add: ev del: state_at.simps(2))
  have k: "(1::nat) \<le> 1" "(1::nat) \<le> 65535" by simp_all
  have g1: "getitem (instructions ?P) (e_pc ?l1) = Inr \<lparr>operator = OpIncVal, operand = 0\<rparr>"
    and g2: "getitem (instructions ?P) (e_pc ?l2) = Inr \<lparr>operator = OpDecVal, operand = 0\<rparr>"
    and g3: "getitem (instructions ?P) (e_pc ?l3) = Inr \<lparr>operator = OpOut, operand = 0\<rparr>"
    and g4: "getitem (instructions (?P\<lparr>print_buffer := [0]\<rparr>)) (e_pc ?l4) =
              Inr \<lparr>operator = OpIn, operand = 0\<rparr>"
    by (simp_all add: getitem_def py_index_def)
  have b1: "execute_body ?P ?l1 = Next (?P, ?l2)"
    using negative_pointer_aliases[OF s1 _ k g1, of 0] by simp
  have b2: "execute_body ?P ?l2 = Next (?P, ?l3)"
    using negative_pointer_aliases[OF s2 _ k g2, of 0] by simp
  have b3: "execute_body ?P ?l3 = Next (?P\<lparr>print_buffer := [0]\<rparr>, ?l4)"
    using negative_pointer_aliases[OF s3 _ k g3, of 0] by (simp add: chr_def)
  have b4: "execute_body (?P\<lparr>print_buffer := [0]\<rparr>) ?l4 =
      Next (?P\<lparr>print_buffer := [0]\<rparr>,
            \<lparr>e_data = ?d[65534 := 7], e_pc = 5, e_ptr = - 1, e_stdin = []\<rparr>)"
    using negative_pointer_aliases[OF s4 _ k g4, of 0] by (simp add: read_int_def)
  from s1 b1 s2 b2 s3 b3 s4 b4 show ?thesis
    unfolding Let_def by (intro conjI)
qed

text \<open>
  C9. The program \<open>-.\<close> compiles; executing it raises ValueError in the output instruction,
  the cell holding -1, so that \<open>execute\<close> returns no status at all, whatever the input.
\<close>

theorem output_of_negative_cell_raises:
  "\<exists>p. compile Program_init ''-.'' = Inr (Success, p) \<and>
     (\<forall>k inp. execute (2 + k) p inp = Some (Inl ValueError)) \<and>
     (\<forall>fuel inp r. execute fuel p inp \<noteq> Some (Inr r))"
proof -
  obtain p where c: "compile Program_init ''-.'' = Inr (Success, p)"
    and e: "\<And>inp. execute 2 p inp = Some (Inl ValueError)"
    by (simp add: compile_eval execute_eval)
  have m: "\<And>k inp. execute (2 + k) p inp = Some (Inl ValueError)"
    using e by (rule execute_mono)
  have "execute fuel p inp \<noteq> Some (Inr r)" for fuel inp r
  proof
    assume a: "execute fuel p inp = Some (Inr r)"
    from execute_mono[OF a, of 2] m[of fuel inp] show False by (simp add: add.commute)
  qed
  with c m show ?thesis by blast
qed



section \<open>Compilation\<close>

subsection \<open>Brackets\<close>

lemma depth_after_append:
  "depth_after d (a @ b) = (case depth_after d a of None \<Rightarrow> None | Some d' \<Rightarrow> depth_after d' b)"
  by (induction a arbitrary: d) (auto split: nat.splits)

lemma depth_after_shift:
  "depth_after d s = Some e \<Longrightarrow> depth_after (d + k) s = Some (e + k)"
proof (induction s arbitrary: d)
  case Nil
  then show ?case by simp
next
  case (Cons c s)
  show ?case
  proof (cases "c = CHR ''[''")
    case True
    with Cons.prems have "depth_after (Suc d) s = Some e" by simp
    from Cons.IH[OF this] True show ?thesis by simp
  next
    case False
    note nopen = this
    show ?thesis
    proof (cases "c = CHR '']''")
      case True
      with Cons.prems obtain d' where d: "d = Suc d'" and r: "depth_after d' s = Some e"
        by (cases d) auto
      from Cons.IH[OF r] True d show ?thesis by simp
    next
      case False
      with nopen Cons.prems have "depth_after d s = Some e" by simp
      from Cons.IH[OF this] False nopen show ?thesis by simp
    qed
  qed
qed

lemma balanced_Nil: "balanced []"
  by (simp add: balanced_def)

lemma balanced_append: "balanced a \<Longrightarrow> balanced b \<Longrightarrow> balanced (a @ b)"
  by (simp add: balanced_def depth_after_append)

lemma balanced_snoc_plain:
  "c \<noteq> CHR ''['' \<Longrightarrow> c \<noteq> CHR '']'' \<Longrightarrow> balanced a \<Longrightarrow> balanced (a @ [c])"
  by (simp add: balanced_def depth_after_append)

lemma balanced_wrap: "balanced b \<Longrightarrow> balanced (CHR ''['' # b @ [CHR '']''])"
  using depth_after_shift[of 0 b 0 1]
  by (simp add: balanced_def depth_after_append)

lemma balanced_close_unmatched:
  "balanced x \<Longrightarrow> \<not> balanced (x @ CHR '']'' # y)"
  by (simp add: balanced_def depth_after_append)

lemma open_ok_snoc_plain:
  "c \<noteq> CHR ''['' \<Longrightarrow> c \<noteq> CHR '']'' \<Longrightarrow> open_ok cs st \<Longrightarrow> open_ok (cs @ [c]) st"
  by (cases st) (auto simp: balanced_snoc_plain nth_append)

lemma open_ok_append_balanced:
  "open_ok a st \<Longrightarrow> balanced b \<Longrightarrow> open_ok (a @ b) st"
  by (cases st) (auto simp: balanced_append nth_append)

lemma open_ok_close:
  assumes "open_ok cs (p # ps)"
  shows "open_ok (cs @ [CHR '']'']) ps"
proof -
  from assms have p: "p < length cs" and b: "balanced (drop (Suc p) cs)"
    and o: "open_ok (take p cs) ps" and c: "cs ! p = CHR ''[''" by auto
  have "cs = take p cs @ CHR ''['' # drop (Suc p) cs"
    using p c id_take_nth_drop by fastforce
  then have "cs @ [CHR '']''] = take p cs @ (CHR ''['' # drop (Suc p) cs @ [CHR '']''])"
    by (metis append_Cons append_assoc)
  moreover have "open_ok (take p cs @ (CHR ''['' # drop (Suc p) cs @ [CHR '']''])) ps"
    using o b by (intro open_ok_append_balanced balanced_wrap)
  ultimately show ?thesis by metis
qed

lemma matching_snoc:
  "matching cs i j \<Longrightarrow> matching (cs @ x) i j"
  by (auto simp: matching_def nth_append)

lemma matching_top:
  assumes "open_ok cs (p # ps)"
  shows "matching (cs @ [CHR '']'']) p (length cs)"
  using assms by (auto simp: matching_def nth_append)

lemma top_unmatched:
  assumes "open_ok cs (p # ps)"
  shows "\<not> matching cs p j"
proof
  assume m: "matching cs p j"
  let ?b = "drop (Suc p) cs"
  let ?m = "j - Suc p"
  from m have j: "p < j" "j < length cs" "cs ! j = CHR '']''"
    and bx: "balanced (take ?m ?b)" by (auto simp: matching_def)
  from assms have b: "balanced ?b" by simp
  have lt: "?m < length ?b" using j by auto
  have "?b ! ?m = CHR '']''" using j by auto
  with id_take_nth_drop[OF lt] have "?b = take ?m ?b @ CHR '']'' # drop (Suc ?m) ?b"
    by simp
  with balanced_close_unmatched[OF bx] b show False by metis
qed

subsection \<open>One character\<close>

lemma py_index_nat: "n < length xs \<Longrightarrow> py_index xs (int n) = Inr n"
  by (simp add: py_index_def)

lemma set_operator_nat:
  "n < length ins \<Longrightarrow> set_operator ins (int n) v = Inr (ins[n := (ins ! n)\<lparr>operator := v\<rparr>])"
  by (simp add: set_operator_def py_index_nat)

lemma set_operand_nat:
  "n < length ins \<Longrightarrow> set_operand ins (int n) v = Inr (ins[n := (ins ! n)\<lparr>operand := v\<rparr>])"
  by (simp add: set_operand_def py_index_nat)

lemma compile_char_comment:
  "\<not> is_command c \<Longrightarrow> compile_char self pc c = Next (self, pc)"
  by (simp add: compile_char_def is_command_def)

lemma compile_char_plain:
  assumes "is_command c" "c \<noteq> CHR ''[''" "c \<noteq> CHR '']''" "n < length (instructions self)"
  shows "compile_char self (int n) c =
    Next (self\<lparr>instructions := (instructions self)[n := (instructions self ! n)\<lparr>operator := op_of c\<rparr>]\<rparr>,
          int n + 1)"
  using assms by (auto simp: compile_char_def is_command_def put_def propagate_def set_operator_nat)

lemma compile_char_open_full:
  assumes "n < length (instructions self)" "ptr (stack self) = 512"
  shows "compile_char self (int n) CHR ''['' =
    Return (Failure, self\<lparr>instructions := (instructions self)[n := (instructions self ! n)\<lparr>operator := OpJmpFwd\<rparr>]\<rparr>)"
  using assms by (simp add: compile_char_def propagate_def set_operator_nat is_full_def)

lemma compile_char_open:
  assumes "n < length (instructions self)" "Stack_inv (stack self)" "ptr (stack self) \<noteq> 512"
  shows "compile_char self (int n) CHR ''['' =
    Next (self\<lparr>instructions := (instructions self)[n := (instructions self ! n)\<lparr>operator := OpJmpFwd\<rparr>],
               stack := (stack self)\<lparr>arr := (arr (stack self))[nat (ptr (stack self)) := int n],
                                      ptr := ptr (stack self) + 1\<rparr>\<rparr>,
          int n + 1)"
  using assms push_ok[of "stack self" "int n"]
  by (simp add: compile_char_def propagate_def set_operator_nat is_full_def STACK_SIZE_def)

lemma compile_char_close_empty:
  assumes "ptr (stack self) = 0"
  shows "compile_char self pc CHR '']'' = Return (Failure, self)"
  using assms by (simp add: compile_char_def is_empty_def)

lemma compile_char_close:
  assumes "n < length (instructions self)" "Stack_inv (stack self)" "ptr (stack self) \<noteq> 0"
    and "last (held (stack self)) = int p" "p < length (instructions self)"
  shows "compile_char self (int n) CHR '']'' =
    Next (self\<lparr>stack := (stack self)\<lparr>ptr := ptr (stack self) - 1\<rparr>,
               instructions :=
                 (let ins1 = (instructions self)[n := (instructions self ! n)\<lparr>operator := OpJmpBck\<rparr>];
                      ins2 = ins1[n := (ins1 ! n)\<lparr>operand := int p\<rparr>]
                  in ins2[p := (ins2 ! p)\<lparr>operand := int n\<rparr>])\<rparr>,
          int n + 1)"
  using assms pop_ok[of "stack self"] pop_ok_inv(3)[of "stack self"]
  by (simp add: compile_char_def propagate_def set_operator_nat set_operand_nat is_empty_def Let_def)

lemma op_of_command: "is_command c \<Longrightarrow> op_of c \<noteq> Unknown"
  by (auto simp: is_command_def)

lemma linked_bound: "linked cs ins i j \<Longrightarrow> i < length cs \<and> j < length cs"
  by (auto simp: linked_def matching_def)

lemma linked_snoc:
  assumes "linked cs ins i j" and "\<forall>k<length cs. operand (ins' ! k) = operand (ins ! k)"
  shows "linked (cs @ x) ins' i j"
  using assms linked_bound[OF assms(1)] by (simp add: linked_def matching_snoc)

lemma code_ok_snoc:
  assumes "code_ok ins cs" "length cs < 4096" "is_command c" "length ins' = length ins"
    and "operator (ins' ! length cs) = op_of c"
    and "\<forall>k<length cs. operator (ins' ! k) = operator (ins ! k)"
    and "\<forall>k>length cs. ins' ! k = ins ! k"
  shows "code_ok ins' (cs @ [c])"
  unfolding code_ok_def
proof (intro conjI)
  show "length ins' = 4096" using assms(1,4) by (simp add: code_ok_def)
  show "length (cs @ [c]) \<le> 4096" using assms(2) by simp
  show "\<forall>c\<in>set (cs @ [c]). is_command c" using assms(1,3) by (auto simp: code_ok_def)
  show "\<forall>k<length (cs @ [c]). operator (ins' ! k) = op_of ((cs @ [c]) ! k)"
  proof (intro allI impI)
    fix k assume "k < length (cs @ [c])"
    then consider "k < length cs" | "k = length cs" by fastforce
    then show "operator (ins' ! k) = op_of ((cs @ [c]) ! k)"
    proof cases
      case 1
      with assms(1,6) show ?thesis by (simp add: code_ok_def nth_append)
    next
      case 2
      with assms(5) show ?thesis by simp
    qed
  qed
  show "\<forall>k. length (cs @ [c]) \<le> k \<and> k < 4096 \<longrightarrow> ins' ! k = \<lparr>operator = Unknown, operand = 0\<rparr>"
    using assms(1,7) by (simp add: code_ok_def)
qed

lemma links_ok_snoc:
  assumes l: "links_ok ins cs st" and c: "c \<noteq> CHR '']''"
    and o: "c = CHR ''['' \<longrightarrow> length cs \<in> set st'" and sub: "set st \<subseteq> set st'"
    and opd: "\<forall>k<length cs. operand (ins' ! k) = operand (ins ! k)"
  shows "links_ok ins' (cs @ [c]) st'"
  unfolding links_ok_def
proof (intro conjI allI impI)
  fix i assume i: "i < length (cs @ [c])" and b: "(cs @ [c]) ! i = CHR ''[''"
  show "i \<in> set st' \<or> (\<exists>j. linked (cs @ [c]) ins' i j)"
  proof (cases "i = length cs")
    case True
    with b o show ?thesis by simp
  next
    case False
    with i have lt: "i < length cs" by simp
    with b have "cs ! i = CHR ''[''" by (simp add: nth_append)
    with l lt have "i \<in> set st \<or> (\<exists>j. linked cs ins i j)" by (simp add: links_ok_def)
    then show ?thesis
    proof
      assume "i \<in> set st"
      with sub show ?thesis by blast
    next
      assume "\<exists>j. linked cs ins i j"
      then obtain j where "linked cs ins i j" ..
      from linked_snoc[OF this opd] show ?thesis by blast
    qed
  qed
next
  fix j assume j: "j < length (cs @ [c])" and b: "(cs @ [c]) ! j = CHR '']''"
  from j b c have lt: "j < length cs" by (cases "j = length cs") auto
  with b have "cs ! j = CHR '']''" by (simp add: nth_append)
  with l lt obtain i where "linked cs ins i j" by (auto simp: links_ok_def)
  from linked_snoc[OF this opd] show "\<exists>i. linked (cs @ [c]) ins' i j" by blast
qed

lemma links_ok_close:
  assumes l: "links_ok ins cs (p # ps)" and o: "open_ok cs (p # ps)"
    and pn: "operand (ins' ! p) = int (length cs)" and np: "operand (ins' ! length cs) = int p"
    and opd: "\<forall>k<length cs. k \<noteq> p \<longrightarrow> operand (ins' ! k) = operand (ins ! k)"
  shows "links_ok ins' (cs @ [CHR '']'']) ps"
  unfolding links_ok_def
proof (intro conjI allI impI)
  let ?cs' = "cs @ [CHR '']'']"
  have new: "linked ?cs' ins' p (length cs)"
    using matching_top[OF o] pn np by (simp add: linked_def)
  have keep: "linked ?cs' ins' i j" if lk: "linked cs ins i j" for i j
  proof -
    from lk have m: "matching cs i j" by (simp add: linked_def)
    from linked_bound[OF lk] have b: "i < length cs" "j < length cs" by simp_all
    from m top_unmatched[OF o] have ip: "i \<noteq> p" by blast
    from m o have jp: "j \<noteq> p" by (auto simp: matching_def)
    from lk opd b ip jp show ?thesis by (simp add: linked_def matching_snoc)
  qed
  {
    fix i assume i: "i < length ?cs'" and b: "?cs' ! i = CHR ''[''"
    from i b have lt: "i < length cs" by (cases "i = length cs") auto
    with b have "cs ! i = CHR ''[''" by (simp add: nth_append)
    with l lt have "i \<in> set (p # ps) \<or> (\<exists>j. linked cs ins i j)" by (simp add: links_ok_def)
    then show "i \<in> set ps \<or> (\<exists>j. linked ?cs' ins' i j)"
      using new keep by auto
  }
  {
    fix j assume j: "j < length ?cs'" and b: "?cs' ! j = CHR '']''"
    show "\<exists>i. linked ?cs' ins' i j"
    proof (cases "j = length cs")
      case True
      with new show ?thesis by blast
    next
      case False
      with j have lt: "j < length cs" by simp
      with b have "cs ! j = CHR '']''" by (simp add: nth_append)
      with l lt obtain i where "linked cs ins i j" by (auto simp: links_ok_def)
      from keep[OF this] show ?thesis by blast
    qed
  }
qed

lemma stack_ok_ptr: "stack_ok s st \<Longrightarrow> ptr s = int (length st)"
  using length_held[of s] by (simp add: stack_ok_def)

lemma cinv_step_plain:
  assumes inv: "cinv self cs st" and n: "length cs < 4096"
    and c: "is_command c" "c \<noteq> CHR ''[''" "c \<noteq> CHR '']''"
  shows "\<exists>self'. compile_char self (int (length cs)) c = Next (self', int (length cs) + 1) \<and>
                cinv self' (cs @ [c]) st"
proof -
  let ?n = "length cs"
  let ?ins = "instructions self"
  let ?ins' = "?ins[?n := (?ins ! ?n)\<lparr>operator := op_of c\<rparr>]"
  let ?self' = "self\<lparr>instructions := ?ins'\<rparr>"
  from inv have co: "code_ok ?ins cs" and lo: "links_ok ?ins cs st"
    and so: "stack_ok (stack self) st" and oo: "open_ok cs st" by (simp_all add: cinv_def)
  from co have len: "length ?ins = 4096" by (simp add: code_ok_def)
  with n have lt: "?n < length ?ins" by simp
  have step: "compile_char self (int ?n) c = Next (?self', int ?n + 1)"
    using c lt by (rule compile_char_plain)
  have opd: "\<forall>k<?n. operand (?ins' ! k) = operand (?ins ! k)" by simp
  have co': "code_ok ?ins' (cs @ [c])"
    using co n c(1) lt by (intro code_ok_snoc[where ins = ?ins]) simp_all
  have lo': "links_ok ?ins' (cs @ [c]) st"
    using lo c(3) c(2) opd by (intro links_ok_snoc[where ins = ?ins and st = st]) simp_all
  have "cinv ?self' (cs @ [c]) st"
    using co' lo' so oo c by (simp add: cinv_def open_ok_snoc_plain)
  with step show ?thesis by blast
qed

lemma cinv_step_open_full:
  assumes inv: "cinv self cs st" and n: "length cs < 4096" and d: "length st = 512"
  shows "\<exists>self'. compile_char self (int (length cs)) CHR ''['' = Return (Failure, self')"
proof -
  from inv have co: "code_ok (instructions self) cs" and so: "stack_ok (stack self) st"
    by (simp_all add: cinv_def)
  from co n have lt: "length cs < length (instructions self)" by (simp add: code_ok_def)
  from stack_ok_ptr[OF so] d have "ptr (stack self) = 512" by simp
  from compile_char_open_full[OF lt this] show ?thesis by blast
qed

lemma cinv_step_open:
  assumes inv: "cinv self cs st" and n: "length cs < 4096" and d: "length st \<noteq> 512"
  shows "\<exists>self'. compile_char self (int (length cs)) CHR ''['' = Next (self', int (length cs) + 1) \<and>
                cinv self' (cs @ [CHR ''['']) (length cs # st)"
proof -
  let ?n = "length cs"
  let ?ins = "instructions self"
  let ?ins' = "?ins[?n := (?ins ! ?n)\<lparr>operator := OpJmpFwd\<rparr>]"
  let ?s = "stack self"
  let ?s' = "?s\<lparr>arr := (arr ?s)[nat (ptr ?s) := int ?n], ptr := ptr ?s + 1\<rparr>"
  let ?self' = "self\<lparr>instructions := ?ins', stack := ?s'\<rparr>"
  from inv have co: "code_ok ?ins cs" and lo: "links_ok ?ins cs st"
    and so: "stack_ok ?s st" and oo: "open_ok cs st" by (simp_all add: cinv_def)
  from co have len: "length ?ins = 4096" by (simp add: code_ok_def)
  with n have lt: "?n < length ?ins" by simp
  from so have si: "Stack_inv ?s" and h: "held ?s = map int (rev st)" by (simp_all add: stack_ok_def)
  from stack_ok_ptr[OF so] d have nf: "ptr ?s \<noteq> 512" by simp
  then have nf': "ptr ?s \<noteq> STACK_SIZE" by (simp add: STACK_SIZE_def)
  have step: "compile_char self (int ?n) CHR ''['' = Next (?self', int ?n + 1)"
    using lt si nf by (rule compile_char_open)
  have so': "stack_ok ?s' (?n # st)"
    using push_ok_inv[OF si nf', of "int ?n"] h by (simp add: stack_ok_def)
  have opd: "\<forall>k<?n. operand (?ins' ! k) = operand (?ins ! k)" by simp
  have co': "code_ok ?ins' (cs @ [CHR ''[''])"
    using co n lt by (intro code_ok_snoc[where ins = ?ins]) (simp_all add: is_command_def)
  have lo': "links_ok ?ins' (cs @ [CHR ''['']) (?n # st)"
    using lo opd by (intro links_ok_snoc[where ins = ?ins and st = st]) auto
  have "cinv ?self' (cs @ [CHR ''['']) (?n # st)"
    using co' lo' so' oo by (simp add: cinv_def balanced_Nil)
  with step show ?thesis by blast
qed

lemma cinv_step_close_empty:
  assumes inv: "cinv self cs []"
  shows "compile_char self pc CHR '']'' = Return (Failure, self)"
proof -
  from inv have "stack_ok (stack self) []" by (simp add: cinv_def)
  from stack_ok_ptr[OF this] have "ptr (stack self) = 0" by simp
  then show ?thesis by (rule compile_char_close_empty)
qed

lemma cinv_step_close:
  assumes inv: "cinv self cs (p # ps)" and n: "length cs < 4096"
  shows "\<exists>self'. compile_char self (int (length cs)) CHR '']'' = Next (self', int (length cs) + 1) \<and>
                cinv self' (cs @ [CHR '']'']) ps"
proof -
  let ?n = "length cs"
  let ?ins = "instructions self"
  let ?ins1 = "?ins[?n := (?ins ! ?n)\<lparr>operator := OpJmpBck\<rparr>]"
  let ?ins2 = "?ins1[?n := (?ins1 ! ?n)\<lparr>operand := int p\<rparr>]"
  let ?ins3 = "?ins2[p := (?ins2 ! p)\<lparr>operand := int ?n\<rparr>]"
  let ?s = "stack self"
  let ?s' = "?s\<lparr>ptr := ptr ?s - 1\<rparr>"
  let ?self' = "self\<lparr>stack := ?s', instructions := ?ins3\<rparr>"
  from inv have co: "code_ok ?ins cs" and lo: "links_ok ?ins cs (p # ps)"
    and so: "stack_ok ?s (p # ps)" and oo: "open_ok cs (p # ps)" by (simp_all add: cinv_def)
  from co have len: "length ?ins = 4096" by (simp add: code_ok_def)
  with n have lt: "?n < length ?ins" by simp
  from oo have pn: "p < ?n" by simp
  with lt have pl: "p < length ?ins" by simp
  from so have si: "Stack_inv ?s" and h: "held ?s = map int (rev (p # ps))"
    by (simp_all add: stack_ok_def)
  from stack_ok_ptr[OF so] have ne: "ptr ?s \<noteq> 0" by simp
  from h have top: "last (held ?s) = int p" by simp
  have step: "compile_char self (int ?n) CHR '']'' = Next (?self', int ?n + 1)"
    using compile_char_close[OF lt si ne top pl] by (simp add: Let_def)
  have so': "stack_ok ?s' ps"
    using pop_ok_inv(1,2)[OF si ne] h by (simp add: stack_ok_def)
  have co': "code_ok ?ins3 (cs @ [CHR '']''])"
    using co n lt pn pl
    by (intro code_ok_snoc[where ins = ?ins]) (simp_all add: is_command_def nth_list_update)
  have lo': "links_ok ?ins3 (cs @ [CHR '']'']) ps"
    using lo oo lt pn pl
    by (intro links_ok_close[where ins = ?ins and p = p]) (simp_all add: nth_list_update)
  have "cinv ?self' (cs @ [CHR '']'']) ps"
    using co' lo' so' open_ok_close[OF oo] by (simp add: cinv_def)
  with step show ?thesis by blast
qed

subsection \<open>The loop\<close>

lemma cinv_init: "cinv Program_init [] []"
  by (simp add: cinv_def code_ok_def links_ok_def stack_ok_def Program_init_def
      PROGRAM_SIZE_def Stack_inv_init held_init balanced_Nil)

lemma cinv_length: "cinv self cs st \<Longrightarrow> length cs \<le> 4096"
  by (simp add: cinv_def code_ok_def)

lemma compile_loop_break:
  "\<not> pc < PROGRAM_SIZE \<Longrightarrow> compile_loop self pc s = Next (self, pc)"
  by (cases s) simp_all

lemma compile_loop_append:
  "compile_loop self pc (a @ b) =
     (case compile_loop self pc a of
        Raise e \<Rightarrow> Raise e
      | Return r \<Rightarrow> Return r
      | Next (self', pc') \<Rightarrow> compile_loop self' pc' b)"
proof (induction a arbitrary: self pc)
  case Nil
  show ?case by simp
next
  case (Cons c a)
  show ?case
  proof (cases "pc < PROGRAM_SIZE")
    case True
    then show ?thesis using Cons.IH by (simp split: ctl.splits)
  next
    case False
    then show ?thesis by (simp add: compile_loop_break)
  qed
qed

lemma compile_loop_refines:
  assumes "cinv self cs st"
  shows "(ascan (length cs) (length st) s = None \<longrightarrow>
            (\<exists>self'. compile_loop self (int (length cs)) s = Return (Failure, self'))) \<and>
         (\<forall>n' d'. ascan (length cs) (length st) s = Some (n', d') \<longrightarrow>
            (\<exists>self' cs' st'. compile_loop self (int (length cs)) s = Next (self', int n') \<and>
               cinv self' cs' st' \<and> length cs' = n' \<and> length st' = d' \<and>
               (n' < 4096 \<longrightarrow> cs' = cs @ commands s)))"
  using assms
proof (induction s arbitrary: self cs st)
  case Nil
  then show ?case by (auto simp: commands_def)
next
  case (Cons c s)
  note inv = Cons.prems
  show ?case
  proof (cases "length cs < 4096")
    case False
    with cinv_length[OF inv] have "length cs = 4096" by simp
    with inv show ?thesis by (auto simp: PROGRAM_SIZE_def)
  next
    case True
    note n = this
    then have pc: "int (length cs) < PROGRAM_SIZE" by (simp add: PROGRAM_SIZE_def)
    show ?thesis
    proof (cases "is_command c")
      case False
      then have nb: "c \<noteq> CHR ''[''" "c \<noteq> CHR '']''" by (auto simp: is_command_def)
      from False have "compile_char self (int (length cs)) c = Next (self, int (length cs))"
        by (rule compile_char_comment)
      with Cons.IH[OF inv] pc n nb False show ?thesis by (simp add: commands_def)
    next
      case True
      note cmd = this
      show ?thesis
      proof (cases "c = CHR ''[''")
        case True
        note op = this
        show ?thesis
        proof (cases "length st = 512")
          case True
          from cinv_step_open_full[OF inv n True] op pc n True show ?thesis by auto
        next
          case False
          from cinv_step_open[OF inv n False] obtain self1 where
            s: "compile_char self (int (length cs)) CHR ''['' = Next (self1, int (length cs) + 1)"
            and i: "cinv self1 (cs @ [CHR ''['']) (length cs # st)" by blast
          from Cons.IH[OF i] s op pc n False cmd show ?thesis
            by (simp add: commands_def add.commute)
        qed
      next
        case False
        note nop = this
        show ?thesis
        proof (cases "c = CHR '']''")
          case True
          note cl = this
          show ?thesis
          proof (cases st)
            case Nil
            with cinv_step_close_empty[of self cs "int (length cs)"] inv cl pc n show ?thesis
              by simp
          next
            case (Cons p ps)
            from cinv_step_close[OF inv[unfolded Cons] n] obtain self1 where
              s: "compile_char self (int (length cs)) CHR '']'' = Next (self1, int (length cs) + 1)"
              and i: "cinv self1 (cs @ [CHR '']'']) ps" by blast
            from Cons.IH[OF i] s cl pc n Cons cmd show ?thesis
              by (simp add: commands_def add.commute)
          qed
        next
          case False
          from cinv_step_plain[OF inv n cmd nop False] obtain self1 where
            s: "compile_char self (int (length cs)) c = Next (self1, int (length cs) + 1)"
            and i: "cinv self1 (cs @ [c]) st" by blast
          from Cons.IH[OF i] s nop False pc n cmd show ?thesis
            by (simp add: commands_def add.commute)
        qed
      qed
    qed
  qed
qed

lemma ascan_count:
  "n \<le> 4096 \<Longrightarrow> ascan n d s = Some (n', d') \<Longrightarrow> n' = min (n + length (commands s)) 4096"
proof (induction s arbitrary: n d)
  case Nil
  then show ?case by (simp add: commands_def)
next
  case (Cons c s)
  show ?case
  proof (cases "n < 4096")
    case False
    with Cons.prems show ?thesis by simp
  next
    case True
    then have le: "Suc n \<le> 4096" by simp
    have cmd: "c = CHR ''['' \<or> c = CHR '']'' \<Longrightarrow> is_command c" by (auto simp: is_command_def)
    from Cons.prems(2) True Cons.IH[OF le] Cons.IH[OF Cons.prems(1)] cmd show ?thesis
      by (auto simp: commands_def split: if_splits nat.splits)
  qed
qed

lemma ascan_ok:
  "n + length (commands s) \<le> 4095 \<Longrightarrow> depth_after d s = Some d' \<Longrightarrow> nesting d s \<le> 512 \<Longrightarrow>
   ascan n d s = Some (n + length (commands s), d')"
proof (induction s arbitrary: n d)
  case Nil
  then show ?case by (simp add: commands_def)
next
  case (Cons c s)
  have cmd: "c = CHR ''['' \<or> c = CHR '']'' \<Longrightarrow> is_command c" by (auto simp: is_command_def)
  from Cons.prems have n: "n < 4096" by simp
  show ?case
  proof (cases "c = CHR ''[''")
    case True
    with Cons.prems cmd have a: "Suc n + length (commands s) \<le> 4095"
      and b: "depth_after (Suc d) s = Some d'" and c: "nesting (Suc d) s \<le> 512"
      by (simp_all add: commands_def)
    have "Suc d \<le> nesting (Suc d) s" by (induction s arbitrary: d) (auto simp: max_def)
    with c have "d \<noteq> 512" by simp
    with Cons.IH[OF a b c] True n cmd show ?thesis by (simp add: commands_def)
  next
    case False
    note nop = this
    show ?thesis
    proof (cases "c = CHR '']''")
      case True
      with Cons.prems nop obtain e where d: "d = Suc e" and b: "depth_after e s = Some d'"
        by (cases d) auto
      from Cons.prems True nop cmd d have a: "Suc n + length (commands s) \<le> 4095"
        and c: "nesting e s \<le> 512" by (simp_all add: commands_def)
      from Cons.IH[OF a b c] True nop n cmd d show ?thesis by (simp add: commands_def)
    next
      case False
      show ?thesis
      proof (cases "is_command c")
        case True
        with Cons.prems nop False have a: "Suc n + length (commands s) \<le> 4095"
          and b: "depth_after d s = Some d'" and c: "nesting d s \<le> 512"
          by (simp_all add: commands_def)
        from Cons.IH[OF a b c] True nop False n show ?thesis by (simp add: commands_def)
      next
        case notcmd: False
        with Cons.prems nop \<open>c \<noteq> CHR '']''\<close> have a: "n + length (commands s) \<le> 4095"
          and b: "depth_after d s = Some d'" and c: "nesting d s \<le> 512"
          by (simp_all add: commands_def)
        from Cons.IH[OF a b c] notcmd nop \<open>c \<noteq> CHR '']''\<close> n show ?thesis by (simp add: commands_def)
      qed
    qed
  qed
qed

lemma ascan_unmatched_close:
  "depth_after d s = None \<Longrightarrow> ascan n d s = None \<or> (\<exists>n' d'. ascan n d s = Some (n', d') \<and> \<not> n' < 4096)"
proof (induction s arbitrary: n d)
  case Nil
  then show ?case by simp
next
  case (Cons c s)
  show ?case
  proof (cases "n < 4096")
    case False
    then show ?thesis by simp
  next
    case True
    with Cons.prems Cons.IH show ?thesis
      by (auto split: if_splits nat.splits)
  qed
qed

lemma isspace_not_command: "isspace c \<Longrightarrow> \<not> is_command c"
  by (auto simp: isspace_def is_command_def)

lemma compile_loop_skip:
  "\<forall>c\<in>set ws. \<not> is_command c \<Longrightarrow> compile_loop self pc (ws @ s) = compile_loop self pc s"
proof (induction ws)
  case Nil
  show ?case by simp
next
  case (Cons c ws)
  show ?case
  proof (cases "pc < PROGRAM_SIZE")
    case True
    with Cons show ?thesis by (simp add: compile_char_comment)
  next
    case False
    then show ?thesis by (simp add: compile_loop_break)
  qed
qed

lemma compile_loop_skip_end:
  assumes "\<forall>c\<in>set ws. \<not> is_command c"
  shows "compile_loop self pc (s @ ws) = compile_loop self pc s"
proof -
  have "compile_loop self' pc' ws = Next (self', pc')" for self' pc'
    using compile_loop_skip[OF assms, of self' pc' "[]"] by simp
  then show ?thesis
    by (simp add: compile_loop_append split: ctl.splits)
qed

lemma strip_decompose:
  "\<exists>a b. s = a @ strip s @ b \<and> (\<forall>c\<in>set a. isspace c) \<and> (\<forall>c\<in>set b. isspace c)"
proof -
  let ?t = "dropWhile isspace s"
  let ?a = "takeWhile isspace s"
  let ?b = "rev (takeWhile isspace (rev ?t))"
  have "strip s @ ?b = rev (takeWhile isspace (rev ?t) @ dropWhile isspace (rev ?t))"
    by (simp only: strip_def rev_append)
  also have "\<dots> = ?t" by (simp only: takeWhile_dropWhile_id rev_rev_ident)
  finally have t: "?t = strip s @ ?b" by simp
  have "s = ?a @ ?t" by simp
  with t have "s = ?a @ strip s @ ?b" by simp
  moreover have "\<forall>c\<in>set ?a. isspace c" by (auto dest: set_takeWhileD)
  moreover have "\<forall>c\<in>set ?b. isspace c" by (auto dest: set_takeWhileD)
  ultimately show ?thesis by blast
qed

lemma compile_loop_strip: "compile_loop self pc (strip s) = compile_loop self pc s"
proof -
  from strip_decompose[of s] obtain a b where s: "s = a @ strip s @ b"
    and a: "\<forall>c\<in>set a. isspace c" and b: "\<forall>c\<in>set b. isspace c" by blast
  from a b have a': "\<forall>c\<in>set a. \<not> is_command c" and b': "\<forall>c\<in>set b. \<not> is_command c"
    by (auto dest: isspace_not_command)
  have "compile_loop self pc s = compile_loop self pc (a @ strip s @ b)" using s by simp
  also have "\<dots> = compile_loop self pc (strip s @ b)" using a' by (rule compile_loop_skip)
  also have "\<dots> = compile_loop self pc (strip s)" using b' by (rule compile_loop_skip_end)
  finally show ?thesis by simp
qed

lemma compile_unstripped: "compile self fp = compile_finish (compile_loop self 0 fp)"
  by (simp add: compile_def compile_loop_strip)

lemma compile_loop_init:
  "(ascan 0 0 s = None \<longrightarrow> (\<exists>self'. compile_loop Program_init 0 s = Return (Failure, self'))) \<and>
   (\<forall>n' d'. ascan 0 0 s = Some (n', d') \<longrightarrow>
      (\<exists>self' cs' st'. compile_loop Program_init 0 s = Next (self', int n') \<and>
         cinv self' cs' st' \<and> length cs' = n' \<and> length st' = d' \<and>
         (n' < 4096 \<longrightarrow> cs' = commands s)))"
  using compile_loop_refines[OF cinv_init, of s] by simp

lemma compile_too_large:
  assumes "4096 \<le> length (commands fp)"
  shows "\<exists>self'. compile Program_init fp = Inr (Failure, self')"
proof (cases "ascan 0 0 fp")
  case None
  with compile_loop_init[of fp] show ?thesis
    by (auto simp: compile_unstripped compile_finish_def)
next
  case (Some r)
  obtain n' d' where r: "r = (n', d')" by (cases r)
  from ascan_count[of 0 0 fp n' d'] Some r assms have n': "n' = 4096" by simp
  from compile_loop_init[of fp] Some r obtain self' where
    "compile_loop Program_init 0 fp = Next (self', int n')" by blast
  with n' show ?thesis
    by (simp add: compile_unstripped compile_finish_def PROGRAM_SIZE_def)
qed

lemma scan_ok:
  assumes "length (commands s) \<le> 4095" "depth_after 0 s = Some d" "nesting 0 s \<le> 512"
  shows "\<exists>self1 st. compile_loop Program_init 0 s = Next (self1, int (length (commands s))) \<and>
           cinv self1 (commands s) st \<and> length st = d"
proof -
  from ascan_ok[of 0 s 0 d] assms have "ascan 0 0 s = Some (length (commands s), d)" by simp
  with compile_loop_init[of s] assms(1) show ?thesis by fastforce
qed

lemma cinv_is_empty: "cinv self cs st \<Longrightarrow> is_empty (stack self) \<longleftrightarrow> st = []"
  using stack_ok_ptr[of "stack self" st] by (auto simp: cinv_def is_empty_def)

lemma compile_success:
  assumes "length (commands fp) \<le> 4095" "depth_after 0 fp = Some 0" "nesting 0 fp \<le> 512"
  shows "\<exists>self1. cinv self1 (commands fp) [] \<and>
           compile Program_init fp =
             Inr (Success, self1\<lparr>instructions := (instructions self1)
                    [length (commands fp) :=
                       (instructions self1 ! length (commands fp))\<lparr>operator := OpEnd\<rparr>]\<rparr>)"
proof -
  from scan_ok[OF assms] obtain self1 st where
    l: "compile_loop Program_init 0 fp = Next (self1, int (length (commands fp)))"
    and i: "cinv self1 (commands fp) st" and st: "length st = 0" by blast
  from st i have i': "cinv self1 (commands fp) []" by simp
  from i' have len: "length (instructions self1) = 4096" by (simp add: cinv_def code_ok_def)
  with assms(1) have lt: "length (commands fp) < length (instructions self1)" by simp
  have "compile Program_init fp =
             Inr (Success, self1\<lparr>instructions := (instructions self1)
                    [length (commands fp) :=
                       (instructions self1 ! length (commands fp))\<lparr>operator := OpEnd\<rparr>]\<rparr>)"
    using l cinv_is_empty[OF i'] assms(1) set_operator_nat[OF lt]
    by (simp add: compile_unstripped compile_finish_def PROGRAM_SIZE_def)
  with i' show ?thesis by blast
qed

lemma count_written:
  assumes "code_ok ins cs" "length cs < 4096"
  shows "length (filter (\<lambda>i. operator i \<noteq> Unknown)
           (ins[length cs := (ins ! length cs)\<lparr>operator := OpEnd\<rparr>])) = length cs + 1"
proof -
  let ?n = "length cs"
  let ?ins' = "ins[?n := (ins ! ?n)\<lparr>operator := OpEnd\<rparr>]"
  let ?P = "\<lambda>i. operator i \<noteq> Unknown"
  from assms have len: "length ins = 4096" by (simp add: code_ok_def)
  have a: "\<forall>x\<in>set (take (Suc ?n) ?ins'). ?P x"
  proof
    fix x assume "x \<in> set (take (Suc ?n) ?ins')"
    then obtain k where k: "k < Suc ?n" and x: "x = ?ins' ! k"
      using len assms(2) by (auto simp: in_set_conv_nth)
    show "?P x"
    proof (cases "k = ?n")
      case True
      with x len assms(2) show ?thesis by simp
    next
      case False
      with k have lt: "k < ?n" by simp
      with assms(1) have "operator (ins ! k) = op_of (cs ! k)" "is_command (cs ! k)"
        by (simp_all add: code_ok_def)
      with op_of_command[of "cs ! k"] x False show ?thesis by simp
    qed
  qed
  have b: "\<forall>x\<in>set (drop (Suc ?n) ?ins'). \<not> ?P x"
  proof
    fix x assume "x \<in> set (drop (Suc ?n) ?ins')"
    then obtain k where k: "k < length ?ins' - Suc ?n" and x: "x = drop (Suc ?n) ?ins' ! k"
      by (auto simp: in_set_conv_nth)
    from k len have "Suc ?n + k < 4096" by simp
    with assms(1) have "ins ! (Suc ?n + k) = \<lparr>operator = Unknown, operand = 0\<rparr>"
      by (simp add: code_ok_def)
    with x k len show "\<not> ?P x" by simp
  qed
  have "filter ?P ?ins' = filter ?P (take (Suc ?n) ?ins' @ drop (Suc ?n) ?ins')"
    by (simp only: append_take_drop_id)
  also have "\<dots> = filter ?P (take (Suc ?n) ?ins') @ filter ?P (drop (Suc ?n) ?ins')"
    by (simp only: filter_append)
  also have "\<dots> = take (Suc ?n) ?ins'" using a b by (simp add: filter_id_conv filter_empty_conv)
  finally show ?thesis using len assms(2) by simp
qed

lemma flat_depth_both:
  "(flat_brackets True s \<longrightarrow> depth_after (Suc 0) s = Some 0 \<and> nesting (Suc 0) s \<le> 1) \<and>
   (flat_brackets False s \<longrightarrow> depth_after 0 s = Some 0 \<and> nesting 0 s \<le> 1)"
  by (induction s) auto

lemma flat_depth:
  "flat_brackets False s \<Longrightarrow> depth_after 0 s = Some 0 \<and> nesting 0 s \<le> 1"
  using flat_depth_both[of s] by simp

text \<open>
  C3, amended by the capacity. For a source text made of balanced, non-nested brackets
  and comment characters only, with at most 4095 brackets, \<open>compile\<close> returns Success and
  the instructions that are not Unknown afterwards, the terminator among them, are one
  more than the commands of the text.
\<close>

theorem flat_brackets_compile:
  "flat_brackets False fp \<Longrightarrow> length (commands fp) \<le> 4095 \<Longrightarrow>
     (\<exists>self'. compile Program_init fp = Inr (Success, self') \<and>
        length (filter (\<lambda>i. operator i \<noteq> Unknown) (instructions self')) = length (commands fp) + 1)"
proof -
  assume f: "flat_brackets False fp" and n: "length (commands fp) \<le> 4095"
  from flat_depth[OF f] have d: "depth_after 0 fp = Some 0" and m: "nesting 0 fp \<le> 512" by simp_all
  from compile_success[OF n d m] obtain self1 where
    i: "cinv self1 (commands fp) []" and
    c: "compile Program_init fp =
             Inr (Success, self1\<lparr>instructions := (instructions self1)
                    [length (commands fp) :=
                       (instructions self1 ! length (commands fp))\<lparr>operator := OpEnd\<rparr>]\<rparr>)"
    by blast
  from i have "code_ok (instructions self1) (commands fp)" by (simp add: cinv_def)
  from count_written[OF this] n c show ?thesis by simp
qed

theorem flat_brackets_compile_witness:
  "flat_brackets False ''[] x[]'' \<and> length (commands ''[] x[]'') \<le> 4095 \<and>
   (\<exists>self'. compile Program_init ''[] x[]'' = Inr (Success, self') \<and>
      length (filter (\<lambda>i. operator i \<noteq> Unknown) (instructions self')) = 5)"
proof -
  have f: "flat_brackets False ''[] x[]''" by (simp add: is_command_def)
  have n: "length (commands ''[] x[]'') \<le> 4095" by (simp add: commands_def is_command_def)
  have k: "length (commands ''[] x[]'') + 1 = 5" by (simp add: commands_def is_command_def)
  from flat_brackets_compile[OF f n] show ?thesis unfolding k using f n by blast
qed

lemma commands_brackets: "commands (concat (replicate n ''[]'')) = concat (replicate n ''[]'')"
  by (induction n) (simp_all add: commands_def is_command_def)

lemma length_brackets: "length (concat (replicate n ''[]'')) = 2 * n"
  by (induction n) simp_all

lemma flat_brackets_replicate: "flat_brackets False (concat (replicate n ''[]''))"
  by (induction n) simp_all

text \<open>
  C3, as stated, fails on long texts: 2048 pairs \<open>[]\<close> are balanced and not nested, and
  their 4096 instructions leave no room for the terminator, so \<open>compile\<close> returns Failure.
\<close>

theorem flat_brackets_over_capacity:
  "flat_brackets False (concat (replicate 2048 ''[]'')) \<and>
   map_sum id fst (compile Program_init (concat (replicate 2048 ''[]''))) = Inr Failure"
proof -
  have "4096 \<le> length (commands (concat (replicate 2048 ''[]'')))"
    by (simp add: commands_brackets length_brackets)
  from compile_too_large[OF this] flat_brackets_replicate[of 2048] show ?thesis by auto
qed

lemma depth_after_plus: "depth_after d (replicate m CHR ''+'') = Some d"
  by (induction m) simp_all

lemma ascan_plus:
  "n + m \<le> 4096 \<Longrightarrow> ascan n d (replicate m CHR ''+'' @ s) = ascan (n + m) d s"
  by (induction m arbitrary: n) (simp_all add: is_command_def)

text \<open>
  C5, as stated, fails when another failure comes first: after 4096 commands the loop
  breaks, so the unmatched \<open>]\<close> that follows is never scanned and the loop does not return
  there; \<open>compile\<close> returns Failure after the loop, from the capacity test.
\<close>

theorem unmatched_close_after_capacity:
  "balanced (replicate 4096 CHR ''+'') \<and>
   \<not> returns_in_loop (compile_loop Program_init 0 (replicate 4096 CHR ''+'' @ '']'')) \<and>
   map_sum id fst (compile Program_init (replicate 4096 CHR ''+'' @ '']'')) = Inr Failure"
proof -
  have b: "balanced (replicate 4096 CHR ''+'')" by (simp add: balanced_def depth_after_plus)
  have "ascan 0 0 (replicate 4096 CHR ''+'' @ '']'') = ascan (0 + 4096) 0 '']''"
    by (rule ascan_plus) simp
  then have "ascan 0 0 (replicate 4096 CHR ''+'' @ '']'') = Some (4096, 0)" by simp
  with compile_loop_init[of "replicate 4096 CHR ''+'' @ '']''"]
  have r: "\<not> returns_in_loop (compile_loop Program_init 0 (replicate 4096 CHR ''+'' @ '']''))"
    by (auto simp: returns_in_loop_def)
  have "4096 \<le> length (commands (replicate 4096 CHR ''+'' @ '']''))"
    by (simp add: commands_def is_command_def)
  from compile_too_large[OF this] b r show ?thesis by auto
qed

lemma compile_unmatched_close:
  assumes "balanced pre"
  shows "\<exists>self'. compile Program_init (pre @ CHR '']'' # post) = Inr (Failure, self')"
proof -
  let ?s = "pre @ CHR '']'' # post"
  from assms have "depth_after 0 ?s = None" by (simp add: balanced_def depth_after_append)
  from ascan_unmatched_close[OF this, of 0]
  have "ascan 0 0 ?s = None \<or> (\<exists>n' d'. ascan 0 0 ?s = Some (n', d') \<and> \<not> n' < 4096)" .
  then show ?thesis
  proof (elim disjE exE conjE)
    assume "ascan 0 0 ?s = None"
    with compile_loop_init[of ?s] show ?thesis
      by (auto simp: compile_unstripped compile_finish_def)
  next
    fix n' d' assume a: "ascan 0 0 ?s = Some (n', d')" and b: "\<not> n' < 4096"
    from ascan_count[OF _ a] b have "n' = 4096" by simp
    with compile_loop_init[of ?s] a show ?thesis
      by (auto simp: compile_unstripped compile_finish_def PROGRAM_SIZE_def)
  qed
qed

lemma compile_fails_at_close:
  assumes "balanced pre" "length (commands pre) \<le> 4095" "nesting 0 pre \<le> 512"
  shows "\<exists>self1. compile_loop Program_init 0 pre = Next (self1, int (length (commands pre))) \<and>
           compile_char self1 (int (length (commands pre))) CHR '']'' = Return (Failure, self1) \<and>
           compile Program_init (pre @ CHR '']'' # post) = Inr (Failure, self1)"
proof -
  from assms(1) have d: "depth_after 0 pre = Some 0" by (simp add: balanced_def)
  from scan_ok[OF assms(2) d assms(3)] obtain self1 st where
    l: "compile_loop Program_init 0 pre = Next (self1, int (length (commands pre)))"
    and i: "cinv self1 (commands pre) st" and st: "length st = 0" by blast
  from i st have i': "cinv self1 (commands pre) []" by simp
  have c: "compile_char self1 (int (length (commands pre))) CHR '']'' = Return (Failure, self1)"
    using i' by (rule cinv_step_close_empty)
  have pc: "int (length (commands pre)) < PROGRAM_SIZE"
    using assms(2) by (simp add: PROGRAM_SIZE_def)
  have "compile_loop Program_init 0 (pre @ CHR '']'' # post) = Return (Failure, self1)"
    using l c pc by (simp add: compile_loop_append)
  then have "compile Program_init (pre @ CHR '']'' # post) = Inr (Failure, self1)"
    by (simp add: compile_unstripped compile_finish_def)
  with l c show ?thesis by blast
qed

lemma compile_unmatched_open:
  assumes "depth_after 0 fp = Some d" "0 < d" "length (commands fp) \<le> 4095" "nesting 0 fp \<le> 512"
  shows "\<exists>self1. compile_loop Program_init 0 fp = Next (self1, int (length (commands fp))) \<and>
           compile Program_init fp = Inr (Failure, self1)"
proof -
  from scan_ok[OF assms(3,1,4)] obtain self1 st where
    l: "compile_loop Program_init 0 fp = Next (self1, int (length (commands fp)))"
    and i: "cinv self1 (commands fp) st" and st: "length st = d" by blast
  from st assms(2) have "st \<noteq> []" by auto
  with cinv_is_empty[OF i] have "\<not> is_empty (stack self1)" by simp
  with l have "compile Program_init fp = Inr (Failure, self1)"
    by (simp add: compile_unstripped compile_finish_def)
  with l show ?thesis by blast
qed

text \<open>
  C5, amended. A source text with an unmatched \<open>]\<close> (the text before it is balanced) makes
  \<open>compile\<close> return Failure. When the text before it has at most 4095 commands and nests
  at most 512 brackets, the loop runs through it and returns Failure at the \<open>]\<close>, leaving
  the object as it was when the \<open>]\<close> was reached, whatever follows. A source text that
  leaves a bracket open, with no unmatched \<open>]\<close>, at most 4095 commands and at most 512
  nested brackets, is scanned to its end, and \<open>compile\<close> returns Failure after the loop.
\<close>

theorem unmatched_brackets:
 "(balanced pre \<longrightarrow> (\<exists>self'. compile Program_init (pre @ CHR '']'' # post) = Inr (Failure, self'))) \<and>
  (balanced pre \<and> length (commands pre) \<le> 4095 \<and> nesting 0 pre \<le> 512 \<longrightarrow>
     (\<exists>self1. compile_loop Program_init 0 pre = Next (self1, int (length (commands pre))) \<and>
              compile_char self1 (int (length (commands pre))) CHR '']'' = Return (Failure, self1) \<and>
              compile Program_init (pre @ CHR '']'' # post) = Inr (Failure, self1))) \<and>
  (depth_after 0 fp = Some d \<and> 0 < d \<and> length (commands fp) \<le> 4095 \<and> nesting 0 fp \<le> 512 \<longrightarrow>
     (\<exists>self1. compile_loop Program_init 0 fp = Next (self1, int (length (commands fp))) \<and>
              compile Program_init fp = Inr (Failure, self1)))"
  using compile_unmatched_close[of pre post] compile_fails_at_close[of pre post]
    compile_unmatched_open[of fp d]
  by blast

theorem unmatched_brackets_witness:
  "balanced ''+'' \<and> (\<exists>self'. compile Program_init ''+]-'' = Inr (Failure, self')) \<and>
   (\<exists>self1. compile_loop Program_init 0 ''+'' = Next (self1, 1) \<and>
             compile_char self1 1 CHR '']'' = Return (Failure, self1) \<and>
             compile Program_init ''+]-'' = Inr (Failure, self1)) \<and>
   depth_after 0 ''['' = Some 1 \<and>
   (\<exists>self1. compile_loop Program_init 0 ''['' = Next (self1, 1) \<and>
             compile Program_init ''['' = Inr (Failure, self1))"
  using unmatched_brackets[of "''+''" "''-''" "''[''" 1]
  by (simp add: balanced_def commands_def is_command_def)

lemma execute_loop_instructions:
  "execute_loop n self l = Some (Inr (st, self', l')) \<Longrightarrow> instructions self' = instructions self"
proof (induction n arbitrary: self l)
  case 0
  then show ?case by simp
next
  case (Suc n)
  then show ?case
    by (auto split: sum.splits ctl.splits if_splits
        dest: execute_body_Return execute_body_instructions)
qed

lemma execute_instructions:
  "execute fuel self inp = Some (Inr (st, self')) \<Longrightarrow> instructions self' = instructions self"
proof -
  assume "execute fuel self inp = Some (Inr (st, self'))"
  then obtain z where z: "execute_loop fuel self (Locals_init inp) = Some z"
    and m: "map_sum id (\<lambda>(st, self', l). (st, self')) z = Inr (st, self')"
    by (auto simp: execute_def)
  from m obtain l' where "z = Inr (st, self', l')"
    by (cases z) (auto split: prod.splits)
  with z show ?thesis by (auto dest: execute_loop_instructions)
qed

text \<open>A bracket has at most one matching bracket.\<close>

lemma matching_unique: "matching cs i j \<Longrightarrow> matching cs i j' \<Longrightarrow> j = j'"
proof (rule ccontr)
  assume m: "matching cs i j" and m': "matching cs i j'" and ne: "j \<noteq> j'"
  have aux: False if a: "matching cs i a" and b: "matching cs i b" and lt: "a < b" for a b
  proof -
    let ?r = "drop (Suc i) cs"
    let ?x = "take (b - Suc i) ?r"
    from a b have ia: "i < a" and bl: "b < length cs" and ca: "cs ! a = CHR '']''"
      and ba: "balanced (take (a - Suc i) ?r)" and bb: "balanced ?x"
      by (auto simp: matching_def)
    have lx: "a - Suc i < length ?x" using ia lt bl by simp
    have "?x ! (a - Suc i) = CHR '']''" using ia lt bl ca by simp
    with id_take_nth_drop[OF lx]
    have "?x = take (a - Suc i) ?x @ CHR '']'' # drop (Suc (a - Suc i)) ?x" by simp
    moreover have "take (a - Suc i) ?x = take (a - Suc i) ?r" using lt by (simp add: min_def)
    ultimately have "?x = take (a - Suc i) ?r @ CHR '']'' # drop (Suc (a - Suc i)) ?x" by simp
    with balanced_close_unmatched[OF ba] bb show False by metis
  qed
  from ne consider "j < j'" | "j' < j" by linarith
  then show False using aux[OF m m'] aux[OF m' m] by cases
qed

lemma compile_Success_cinv:
  assumes c: "compile Program_init fp = Inr (Success, p)"
  shows "\<exists>self1. cinv self1 (commands fp) [] \<and> length (commands fp) < 4096 \<and>
           p = self1\<lparr>instructions := (instructions self1)
                 [length (commands fp) :=
                    (instructions self1 ! length (commands fp))\<lparr>operator := OpEnd\<rparr>]\<rparr>"
proof -
  let ?cs = "commands fp"
  obtain n' d' where a: "ascan 0 0 fp = Some (n', d')"
    using compile_loop_init[of fp] c
    by (cases "ascan 0 0 fp") (auto simp: compile_unstripped compile_finish_def)
  from compile_loop_init[of fp] a obtain self1 cs' st' where
    l: "compile_loop Program_init 0 fp = Next (self1, int n')"
    and i: "cinv self1 cs' st'" and n': "length cs' = n'"
    and cs': "n' < 4096 \<longrightarrow> cs' = ?cs" by blast
  from c l have e: "is_empty (stack self1)" and pc: "int n' \<noteq> PROGRAM_SIZE"
    by (auto simp: compile_unstripped compile_finish_def split: if_splits)
  from cinv_length[OF i] n' pc have lt: "n' < 4096" by (simp add: PROGRAM_SIZE_def)
  with cs' n' have cs: "cs' = ?cs" and n: "length ?cs = n'" by simp_all
  from cinv_is_empty[OF i] e have st: "st' = []" by simp
  from i have len: "length (instructions self1) = 4096" by (simp add: cinv_def code_ok_def)
  have "p = self1\<lparr>instructions := (instructions self1)
                 [length ?cs := (instructions self1 ! length ?cs)\<lparr>operator := OpEnd\<rparr>]\<rparr>"
    using c l e pc n lt len set_operator_nat[of "length ?cs" "instructions self1" OpEnd]
    by (auto simp: compile_unstripped compile_finish_def)
  with i cs st lt n show ?thesis by auto
qed

text \<open>
  C2. After a successful \<open>compile\<close> of a fresh object, every jump-if-zero instruction of
  the array has as operand the position of a jump-if-nonzero instruction whose operand
  is its own position, and the other way round; the two positions are those of matching
  brackets among the commands of the source text. \<open>execute\<close> returns the object with the
  same instructions.
\<close>

theorem jump_linkage:
  "compile Program_init fp = Inr (Success, p) \<Longrightarrow>
     (\<forall>i<length (instructions p). operator (instructions p ! i) = OpJmpFwd \<longrightarrow>
        (\<exists>j. operand (instructions p ! i) = int j \<and> matching (commands fp) i j \<and>
             operator (instructions p ! j) = OpJmpBck \<and> operand (instructions p ! j) = int i)) \<and>
     (\<forall>j<length (instructions p). operator (instructions p ! j) = OpJmpBck \<longrightarrow>
        (\<exists>i. operand (instructions p ! j) = int i \<and> matching (commands fp) i j \<and>
             operator (instructions p ! i) = OpJmpFwd \<and> operand (instructions p ! i) = int j)) \<and>
     (\<forall>fuel inp st p'. execute fuel p inp = Some (Inr (st, p')) \<longrightarrow>
        instructions p' = instructions p)"
proof -
  assume c: "compile Program_init fp = Inr (Success, p)"
  let ?cs = "commands fp"
  let ?n = "length ?cs"
  from compile_Success_cinv[OF c] obtain self1 where i: "cinv self1 ?cs []" and lt: "?n < 4096"
    and pp: "p = self1\<lparr>instructions := (instructions self1)
                 [?n := (instructions self1 ! ?n)\<lparr>operator := OpEnd\<rparr>]\<rparr>" by blast
  let ?ins = "instructions self1"
  from i have co: "code_ok ?ins ?cs" and lo: "links_ok ?ins ?cs []" by (simp_all add: cinv_def)
  from co have len: "length ?ins = 4096" by (simp add: code_ok_def)
  let ?ins' = "?ins[?n := (?ins ! ?n)\<lparr>operator := OpEnd\<rparr>]"
  have p: "instructions p = ?ins'" using pp by simp
  have below: "k < ?n" if "k < 4096" "operator (?ins' ! k) = OpJmpFwd \<or> operator (?ins' ! k) = OpJmpBck" for k
  proof (rule ccontr)
    assume "\<not> k < ?n"
    then consider "k = ?n" | "?n < k" by linarith
    then show False
    proof cases
      case 1
      with that len lt show False by auto
    next
      case 2
      with co that have "?ins ! k = \<lparr>operator = Unknown, operand = 0\<rparr>" by (simp add: code_ok_def)
      with 2 that show False by auto
    qed
  qed
  have same: "?ins' ! k = ?ins ! k" if "k < ?n" for k using that by simp
  have opr: "operator (?ins ! k) = op_of (?cs ! k)" if "k < ?n" for k
    using co that by (simp add: code_ok_def)
  have linked': "operand (?ins' ! a) = int b \<and> matching ?cs a b \<and>
      operator (?ins' ! a) = OpJmpFwd \<and> operator (?ins' ! b) = OpJmpBck \<and>
      operand (?ins' ! b) = int a" if lk: "linked ?cs ?ins a b" for a b
  proof -
    from lk have m: "matching ?cs a b" and oa: "operand (?ins ! a) = int b"
      and ob: "operand (?ins ! b) = int a" by (simp_all add: linked_def)
    from m have a: "a < ?n" and b: "b < ?n" and ca: "?cs ! a = CHR ''[''" and cb: "?cs ! b = CHR '']''"
      by (auto simp: matching_def)
    from same[OF a] same[OF b] opr[OF a] opr[OF b] m oa ob ca cb show ?thesis by simp
  qed
  have fwd: "\<forall>i<length (instructions p). operator (instructions p ! i) = OpJmpFwd \<longrightarrow>
        (\<exists>j. operand (instructions p ! i) = int j \<and> matching ?cs i j \<and>
             operator (instructions p ! j) = OpJmpBck \<and> operand (instructions p ! j) = int i)"
  proof (intro allI impI)
    fix i assume il: "i < length (instructions p)" and o: "operator (instructions p ! i) = OpJmpFwd"
    from il p len have i4: "i < 4096" by simp
    from below[OF i4] o p have ilt: "i < ?n" by simp
    from o p same[OF ilt] opr[OF ilt] have "?cs ! i = CHR ''[''" by (simp split: if_splits)
    with lo ilt obtain j where "linked ?cs ?ins i j" by (auto simp: links_ok_def)
    from linked'[OF this] p show "\<exists>j. operand (instructions p ! i) = int j \<and> matching ?cs i j \<and>
             operator (instructions p ! j) = OpJmpBck \<and> operand (instructions p ! j) = int i"
      by auto
  qed
  have bck: "\<forall>j<length (instructions p). operator (instructions p ! j) = OpJmpBck \<longrightarrow>
        (\<exists>i. operand (instructions p ! j) = int i \<and> matching ?cs i j \<and>
             operator (instructions p ! i) = OpJmpFwd \<and> operand (instructions p ! i) = int j)"
  proof (intro allI impI)
    fix j assume jl: "j < length (instructions p)" and o: "operator (instructions p ! j) = OpJmpBck"
    from jl p len have j4: "j < 4096" by simp
    from below[OF j4] o p have jlt: "j < ?n" by simp
    from o p same[OF jlt] opr[OF jlt] have "?cs ! j = CHR '']''" by (simp split: if_splits)
    with lo jlt obtain i where "linked ?cs ?ins i j" by (auto simp: links_ok_def)
    from linked'[OF this] p show "\<exists>i. operand (instructions p ! j) = int i \<and> matching ?cs i j \<and>
             operator (instructions p ! i) = OpJmpFwd \<and> operand (instructions p ! i) = int j"
      by auto
  qed
  from fwd bck execute_instructions show ?thesis by blast
qed

theorem jump_linkage_witness:
  "compile Program_init ''+[-]'' =
     Inr (Success,
          \<lparr>instructions = (replicate 4096 \<lparr>operator = Unknown, operand = 0\<rparr>)
             [0 := \<lparr>operator = OpIncVal, operand = 0\<rparr>,
              1 := \<lparr>operator = OpJmpFwd, operand = 0\<rparr>,
              2 := \<lparr>operator = OpDecVal, operand = 0\<rparr>,
              3 := \<lparr>operator = OpJmpBck, operand = 1\<rparr>,
              1 := \<lparr>operator = OpJmpFwd, operand = 3\<rparr>,
              4 := \<lparr>operator = OpEnd, operand = 0\<rparr>],
           stack = \<lparr>ptr = 0, arr = (replicate 512 0)[0 := 1]\<rparr>, print_buffer = []\<rparr>) \<and>
   matching (commands ''+[-]'') 1 3"
proof -
  let ?p = "\<lparr>instructions = (replicate 4096 \<lparr>operator = Unknown, operand = 0\<rparr>)
             [0 := \<lparr>operator = OpIncVal, operand = 0\<rparr>,
              1 := \<lparr>operator = OpJmpFwd, operand = 0\<rparr>,
              2 := \<lparr>operator = OpDecVal, operand = 0\<rparr>,
              3 := \<lparr>operator = OpJmpBck, operand = 1\<rparr>,
              1 := \<lparr>operator = OpJmpFwd, operand = 3\<rparr>,
              4 := \<lparr>operator = OpEnd, operand = 0\<rparr>],
           stack = \<lparr>ptr = 0, arr = (replicate 512 0)[0 := 1]\<rparr>, print_buffer = []\<rparr>"
  have c: "compile Program_init ''+[-]'' = Inr (Success, ?p)"
    by (simp add: compile_eval)
  have o: "(1::nat) < length (instructions ?p)" "operator (instructions ?p ! 1) = OpJmpFwd"
    "operand (instructions ?p ! 1) = 3"
    by simp_all
  from jump_linkage[OF c] o have "\<exists>j. 3 = int j \<and> matching (commands ''+[-]'') 1 j"
    by (metis (no_types, lifting))
  then have "matching (commands ''+[-]'') 1 3" by auto
  with c show ?thesis by (rule_tac conjI)
qed

text \<open>
  A compiled program keeps the program counter within the compiled instructions, so the
  instruction at \<open>pc\<close> can always be read, and an execution whose data pointer reaches
  65535 returns Failure.
\<close>

lemma compiled_shape:
  assumes c: "compile Program_init fp = Inr (Success, p)"
  shows "length (instructions p) = 4096 \<and> length (commands fp) < 4096 \<and>
    operator (instructions p ! length (commands fp)) = OpEnd \<and>
    (\<forall>k<length (commands fp). operator (instructions p ! k) = op_of (commands fp ! k) \<and>
       is_command (commands fp ! k) \<and>
       ((operator (instructions p ! k) = OpJmpFwd \<or> operator (instructions p ! k) = OpJmpBck) \<longrightarrow>
          0 \<le> operand (instructions p ! k) \<and>
          operand (instructions p ! k) < int (length (commands fp))))"
proof -
  let ?cs = "commands fp"
  let ?n = "length ?cs"
  from compile_Success_cinv[OF c] obtain self1 where i: "cinv self1 ?cs []" and lt: "?n < 4096"
    and p: "p = self1\<lparr>instructions := (instructions self1)
                 [?n := (instructions self1 ! ?n)\<lparr>operator := OpEnd\<rparr>]\<rparr>" by blast
  let ?ins = "instructions self1"
  from i have co: "code_ok ?ins ?cs" and lo: "links_ok ?ins ?cs []" by (simp_all add: cinv_def)
  from co have len: "length ?ins = 4096" by (simp add: code_ok_def)
  have same: "instructions p ! k = ?ins ! k" if "k < ?n" for k using that p by simp
  have "operator (instructions p ! k) = op_of (?cs ! k) \<and> is_command (?cs ! k) \<and>
       ((operator (instructions p ! k) = OpJmpFwd \<or> operator (instructions p ! k) = OpJmpBck) \<longrightarrow>
          0 \<le> operand (instructions p ! k) \<and> operand (instructions p ! k) < int ?n)"
    if k: "k < ?n" for k
  proof -
    from co k have o: "operator (?ins ! k) = op_of (?cs ! k)" and cmd: "is_command (?cs ! k)"
      by (simp_all add: code_ok_def)
    have "0 \<le> operand (?ins ! k) \<and> operand (?ins ! k) < int ?n"
      if "operator (?ins ! k) = OpJmpFwd \<or> operator (?ins ! k) = OpJmpBck"
    proof -
      from that o have "?cs ! k = CHR ''['' \<or> ?cs ! k = CHR '']''" by (auto split: if_splits)
      then show ?thesis
      proof
        assume "?cs ! k = CHR ''[''"
        with lo k obtain j where "linked ?cs ?ins k j" by (auto simp: links_ok_def)
        then show ?thesis using linked_bound[of ?cs ?ins k j] by (simp add: linked_def)
      next
        assume "?cs ! k = CHR '']''"
        with lo k obtain j where "linked ?cs ?ins j k" by (auto simp: links_ok_def)
        then show ?thesis using linked_bound[of ?cs ?ins j k] by (simp add: linked_def)
      qed
    qed
    with o cmd same[OF k] show ?thesis by simp
  qed
  moreover have "operator (instructions p ! ?n) = OpEnd" using p len lt by simp
  moreover have "length (instructions p) = 4096" using p len by simp
  ultimately show ?thesis using lt by blast
qed

lemma compiled_pc_in_range:
  assumes c: "compile Program_init fp = Inr (Success, p)"
    and s: "state_at n q l = Some (q', l')" and q: "instructions q = instructions p"
    and r: "0 \<le> e_pc l" "e_pc l \<le> int (length (commands fp))"
  shows "instructions q' = instructions p \<and> 0 \<le> e_pc l' \<and> e_pc l' \<le> int (length (commands fp))"
  using s q r
proof (induction n arbitrary: q l)
  case 0
  then show ?case by simp
next
  case (Suc n)
  let ?N = "length (commands fp)"
  note sh = compiled_shape[OF c]
  from sh have len: "length (instructions p) = 4096" and lt: "?N < 4096"
    and fin: "operator (instructions p ! ?N) = OpEnd" by simp_all
  note iq = Suc.prems(2)
  from Suc.prems(3,4) lt len have ix: "py_index (instructions p) (e_pc l) = Inr (nat (e_pc l))"
    by (simp add: py_index_def)
  then have g: "getitem (instructions q) (e_pc l) = Inr (instructions p ! nat (e_pc l))"
    by (simp add: getitem_def iq)
  let ?i = "instructions p ! nat (e_pc l)"
  from Suc.prems(1) g obtain q1 l1 where ne: "operator ?i \<noteq> OpEnd"
    and b: "execute_body q l = Next (q1, l1)" and rest: "state_at n q1 l1 = Some (q', l')"
    by (auto split: ctl.splits if_splits)
  from ne fin Suc.prems(3,4) have k: "nat (e_pc l) < ?N"
    by (cases "nat (e_pc l) = ?N") auto
  from sh k have jr: "(operator ?i = OpJmpFwd \<or> operator ?i = OpJmpBck) \<longrightarrow>
          0 \<le> operand ?i \<and> operand ?i < int ?N" by blast
  have pc1: "0 \<le> e_pc l1 \<and> e_pc l1 \<le> int ?N"
    using b jr k Suc.prems(3)
    by (auto simp: execute_body_def propagate_def g
        split: sum.splits Op.splits if_splits prod.splits)
  have ins1: "instructions q1 = instructions p"
    using execute_body_instructions[OF b] iq by simp
  from Suc.IH[OF rest ins1] pc1 show ?case by simp
qed

lemma compiled_fetch_ok:
  assumes c: "compile Program_init fp = Inr (Success, p)"
    and s: "state_at n p (Locals_init inp) = Some (p', l')"
  shows "\<exists>i. getitem (instructions p') (e_pc l') = Inr i"
proof -
  from compiled_pc_in_range[OF c s] have i: "instructions p' = instructions p"
    and r: "0 \<le> e_pc l'" "e_pc l' \<le> int (length (commands fp))"
    by (simp_all add: Locals_init_def)
  from compiled_shape[OF c] have "length (instructions p) = 4096" "length (commands fp) < 4096"
    by simp_all
  with i r show ?thesis by (simp add: getitem_def py_index_def)
qed

lemma compiled_upper_bound_fails:
  assumes c: "compile Program_init fp = Inr (Success, p)"
    and s: "state_at n p (Locals_init inp) = Some (p', l')" and e: "e_ptr l' = DATA_SIZE"
  shows "execute (Suc (n + m)) p inp = Some (Inr (Failure, p'))"
proof -
  from compiled_fetch_ok[OF c s] obtain i where g: "getitem (instructions p') (e_pc l') = Inr i" ..
  have "execute_loop (n + Suc m) p (Locals_init inp) = execute_loop (Suc m) p' l'"
    using s by (rule state_at_execute_loop)
  also have "\<dots> = Some (Inr (Failure, p', l'))" using g e by simp
  finally show ?thesis by (simp add: execute_def)
qed

text \<open>
  C6. A source text whose commands and terminator would need more than 4096 instructions
  makes \<open>compile\<close> return Failure.
\<close>

theorem capacity_exceeded:
  "4096 < length (commands fp) + 1 \<Longrightarrow> \<exists>self'. compile Program_init fp = Inr (Failure, self')"
  using compile_too_large[of fp] by simp

theorem capacity_exceeded_witness:
  "4096 < length (commands (replicate 4096 CHR ''+'')) + 1 \<and>
   (\<exists>self'. compile Program_init (replicate 4096 CHR ''+'') = Inr (Failure, self'))"
proof -
  have h: "4096 < length (commands (replicate 4096 CHR ''+'')) + 1"
    by (simp add: commands_def is_command_def)
  from capacity_exceeded[OF h] h show ?thesis by (rule_tac conjI)
qed

end
